theory Spec2Isabelle
  imports Main "HOL-Library.Sublist" "HOL-Library.Multiset"
begin

section \<open>Text primitives of the scanner\<close>

text \<open>
  The script \<^verbatim>\<open>verify-api.py\<close> works on Python strings. They are modelled as
  \<^typ>\<open>string\<close>; every character that the script itself inspects (separators, quotes,
  the letters of the method names) is ASCII.
\<close>

text \<open>\<^verbatim>\<open>x in s\<close> on strings: \<open>x\<close> occurs in \<open>s\<close> as a contiguous block.\<close>

fun str_in :: "string \<Rightarrow> string \<Rightarrow> bool" where
  "str_in x [] = (x = [])"
| "str_in x (c # cs) = (prefix x (c # cs) \<or> str_in x cs)"

text \<open>
  \<^verbatim>\<open>s.replace(old, new)\<close>: the occurrences of \<open>old\<close> are found from left to right
  and do not overlap; after a replaced occurrence the scan resumes behind it. For an empty
  \<open>old\<close> Python puts \<open>new\<close> before every character and at the end.
\<close>

function replace :: "string \<Rightarrow> string \<Rightarrow> string \<Rightarrow> string" where
  "replace old new [] = (if old = [] then new else [])"
| "replace old new (c # cs) =
     (if old = [] then new @ c # replace old new cs
      else if prefix old (c # cs) then new @ replace old new (drop (length old) (c # cs))
      else c # replace old new cs)"
  by pat_completeness auto
termination
  by (relation "measure (\<lambda>(old, new, s). length s)") auto

text \<open>\<^verbatim>\<open>s.lstrip(chars)\<close>: drop leading characters that belong to \<open>chars\<close>.\<close>

definition lstrip :: "string \<Rightarrow> string \<Rightarrow> string" where
  "lstrip chars s = dropWhile (\<lambda>c. c \<in> set chars) s"

text \<open>
  \<^verbatim>\<open>s.strip()\<close>: drop white space on both ends. The white-space characters below 256
  are the codes 9 to 13, 28 to 32, 133 and 160.
\<close>

definition is_space :: "char \<Rightarrow> bool" where
  "is_space c = (let n = (of_char c :: nat) in
     (9 \<le> n \<and> n \<le> 13) \<or> (28 \<le> n \<and> n \<le> 32) \<or> n = 133 \<or> n = 160)"

definition strip :: "string \<Rightarrow> string" where
  "strip s = rev (dropWhile is_space (rev (dropWhile is_space s)))"

text \<open>
  \<^verbatim>\<open>s.upper()\<close>. The script applies it to a captured method name only, which is one
  of five lower-case ASCII words; the model maps the ASCII letters and leaves every other
  character as it is.
\<close>

definition upper_char :: "char \<Rightarrow> char" where
  "upper_char c = (let n = (of_char c :: nat) in
     if 97 \<le> n \<and> n \<le> 122 then char_of (n - 32) else c)"

definition upper :: "string \<Rightarrow> string" where
  "upper s = map upper_char s"

section \<open>The regular expressions of the script\<close>

text \<open>
  Every pattern of the script is a sequence of four kinds of items: literal text, a
  capturing group of literal alternatives such as \<^verbatim>\<open>(get|post|put|delete|patch)\<close>,
  a negated class repeated once or more such as \<^verbatim>\<open>[^>]+\<close>, and the same inside a
  capturing group, \<^verbatim>\<open>([^']+)\<close>.
\<close>

datatype item =
    Lit string
  | Alt "string list"
  | NotPlus char
  | Capt char

text \<open>The first result that a list of attempts gives, in the order of the attempts.\<close>

fun first_some :: "('a \<Rightarrow> 'b option) \<Rightarrow> 'a list \<Rightarrow> 'b option" where
  "first_some f [] = None"
| "first_some f (x # xs) = (case f x of Some y \<Rightarrow> Some y | None \<Rightarrow> first_some f xs)"

text \<open>
  The lengths a greedy \<^verbatim>\<open>[^c]+\<close> tries at the start of \<open>s\<close>: the longest run of
  characters other than \<open>c\<close> first, then each shorter one, down to one character.
\<close>

definition greedy_lengths :: "char \<Rightarrow> string \<Rightarrow> nat list" where
  "greedy_lengths c s = rev [1 ..< Suc (length (takeWhile (\<lambda>x. x \<noteq> c) s))]"

text \<open>
  Matching a pattern at the start of a string, as the backtracking matcher of \<^verbatim>\<open>re\<close>
  does: alternatives in the order written, repetitions longest first, each choice kept
  only if the rest of the pattern matches behind it. The result is the captured groups
  and the text left behind the match.
\<close>

fun match_items :: "item list \<Rightarrow> string \<Rightarrow> (string list \<times> string) option" where
  "match_items [] s = Some ([], s)"
| "match_items (Lit l # its) s =
     (if prefix l s then match_items its (drop (length l) s) else None)"
| "match_items (Alt ls # its) s =
     first_some (\<lambda>l. if prefix l s
                      then map_option (\<lambda>(gs, r). (l # gs, r)) (match_items its (drop (length l) s))
                      else None) ls"
| "match_items (NotPlus c # its) s =
     first_some (\<lambda>k. match_items its (drop k s)) (greedy_lengths c s)"
| "match_items (Capt c # its) s =
     first_some (\<lambda>k. map_option (\<lambda>(gs, r). (take k s # gs, r)) (match_items its (drop k s)))
       (greedy_lengths c s)"

text \<open>
  \<^verbatim>\<open>re.findall(pattern, s)\<close>: the matches from left to right, each one searched
  from the end of the one before; every match gives the tuple of its groups. No pattern of
  the script matches the empty string (each starts with a literal), so a match always
  consumes text (lemma \<open>match_consumes\<close> below).
\<close>

function findall :: "item list \<Rightarrow> string \<Rightarrow> string list list" where
  "findall p [] = []"
| "findall p (c # cs) =
     (case match_items p (c # cs) of
        None \<Rightarrow> findall p cs
      | Some (gs, rest) \<Rightarrow>
          if length rest < length (c # cs) then gs # findall p rest
          else findall p cs)"
  by pat_completeness auto
termination
  by (relation "measure (\<lambda>(p, s). length s)") auto

text \<open>
  The same scan with the offset of every match written next to its groups; \<open>i\<close> is the
  offset of the text still to be scanned.
\<close>

function findall_at :: "item list \<Rightarrow> nat \<Rightarrow> string \<Rightarrow> (nat \<times> string list) list" where
  "findall_at p i [] = []"
| "findall_at p i (c # cs) =
     (case match_items p (c # cs) of
        None \<Rightarrow> findall_at p (Suc i) cs
      | Some (gs, rest) \<Rightarrow>
          if length rest < length (c # cs)
          then (i, gs) # findall_at p (i + (length (c # cs) - length rest)) rest
          else findall_at p (Suc i) cs)"
  by pat_completeness auto
termination
  by (relation "measure (\<lambda>(p, i, s). length s)") auto

text \<open>
  \<^verbatim>\<open>re.sub(pattern, repl, s)\<close> with a replacement text that has no group references:
  the leftmost match is replaced and the scan resumes behind it. As in \<open>findall\<close>, the
  branch for a match that consumes no text is never taken for a pattern of the script.
\<close>

function re_sub :: "item list \<Rightarrow> string \<Rightarrow> string \<Rightarrow> string" where
  "re_sub p repl [] = []"
| "re_sub p repl (c # cs) =
     (case match_items p (c # cs) of
        None \<Rightarrow> c # re_sub p repl cs
      | Some (gs, rest) \<Rightarrow>
          if length rest < length (c # cs) then repl @ re_sub p repl rest
          else c # re_sub p repl cs)"
  by pat_completeness auto
termination
  by (relation "measure (\<lambda>(p, repl, s). length s)") auto

section \<open>Path normalisation\<close>

definition template_param :: "item list" where
  "template_param = [Lit ''${'', NotPlus (CHR ''}''), Lit ''}'']"

definition colon_param :: "item list" where
  "colon_param = [Lit '':'', NotPlus (CHR ''/'')]"

definition normalize_path :: "string \<Rightarrow> string" where
  "normalize_path path =
     (let path = replace ''/api/'' ''/'' path;
          path = lstrip ''/'' path;
          path = re_sub template_param '':id'' path;
          path = re_sub colon_param '':id'' path
      in path)"

section \<open>Route records and the two extractors\<close>

text \<open>A route is the dictionary \<^verbatim>\<open>{'method': ..., 'path': ...}\<close> of the script.\<close>

record route =
  "method" :: string
  path :: string

text \<open>
  \<^verbatim>\<open>open\<close> raises when the file cannot be read; nothing in the script catches it.
\<close>

datatype error = OSError

definition squote :: char where
  "squote = CHR 0x27"

definition dquote :: char where
  "dquote = CHR 0x22"

definition http_methods :: "string list" where
  "http_methods = [''get'', ''post'', ''put'', ''delete'', ''patch'']"

text \<open>
  The tuple assignment \<^verbatim>\<open>method, path = ...\<close>. It raises for a tuple of another
  length; every pattern below has two groups and every entry of the feature table has a
  colon, so that branch is never taken (lemmas \<open>match_two_groups\<close> and
  \<open>v22_split\<close>).
\<close>

definition unpack2 :: "string list \<Rightarrow> string \<times> string" where
  "unpack2 xs = (case xs of [a, b] \<Rightarrow> (a, b) | _ \<Rightarrow> ([], []))"

text \<open>\<^verbatim>\<open>routes[key].append(v)\<close> on a \<^verbatim>\<open>defaultdict(list)\<close>, which keeps its keys in
  the order of their first use.\<close>

fun dict_append :: "(string \<times> route list) list \<Rightarrow> string \<Rightarrow> route \<Rightarrow> (string \<times> route list) list" where
  "dict_append [] k v = [(k, [v])]"
| "dict_append ((k', vs) # d) k v =
     (if k' = k then (k', vs @ [v]) # d else (k', vs) # dict_append d k v)"

definition backend_patterns :: "item list list" where
  "backend_patterns =
     [[Lit ''router.'', Alt http_methods, Lit [CHR ''('', squote], Capt squote, Lit [squote]],
      [Lit ''router.'', Alt http_methods, Lit [CHR ''('', dquote], Capt dquote, Lit [dquote]]]"

definition backend_record :: "string list \<Rightarrow> route" where
  "backend_record gs = (case unpack2 gs of (m, p) \<Rightarrow> \<lparr>method = upper m, path = strip p\<rparr>)"

text \<open>The body of the loop over the route files: both patterns, one after the other,
  over the whole text of one file, whose stem is the key of its group.\<close>

definition scan_route_file :: "string \<Rightarrow> string \<Rightarrow> (string \<times> route list) list \<Rightarrow> (string \<times> route list) list" where
  "scan_route_file stem content routes =
     foldl (\<lambda>routes pattern.
              foldl (\<lambda>routes gs. dict_append routes stem (backend_record gs))
                routes (findall pattern content))
       routes backend_patterns"

text \<open>
  The argument lists the files that the glob \<^verbatim>\<open>*.routes.ts\<close> yields, in the order it
  yields them: the stem of each file and its text, or \<open>None\<close> when it cannot be opened.
\<close>

fun extract_backend_routes_from :: "(string \<times> route list) list \<Rightarrow> (string \<times> string option) list \<Rightarrow> error + (string \<times> route list) list" where
  "extract_backend_routes_from routes [] = Inr routes"
| "extract_backend_routes_from routes ((stem, None) # files) = Inl OSError"
| "extract_backend_routes_from routes ((stem, Some content) # files) =
     extract_backend_routes_from (scan_route_file stem content routes) files"

definition extract_backend_routes :: "(string \<times> string option) list \<Rightarrow> error + (string \<times> route list) list" where
  "extract_backend_routes route_files = extract_backend_routes_from [] route_files"

definition frontend_patterns :: "item list list" where
  "frontend_patterns =
     [[Lit ''this.client.'', Alt http_methods, Lit ''<'', NotPlus (CHR ''>''),
         Lit [CHR ''>'', CHR ''('', squote], Capt squote, Lit [squote]],
      [Lit ''this.client.'', Alt http_methods, Lit ''<'', NotPlus (CHR ''>''),
         Lit [CHR ''>'', CHR ''('', dquote], Capt dquote, Lit [dquote]],
      [Lit ''this.client.'', Alt http_methods, Lit [CHR ''('', squote], Capt squote, Lit [squote]],
      [Lit ''this.client.'', Alt http_methods, Lit [CHR ''('', dquote], Capt dquote, Lit [dquote]]]"

definition frontend_record :: "string list \<Rightarrow> route" where
  "frontend_record gs = (case unpack2 gs of (m, p) \<Rightarrow> \<lparr>method = upper m, path = p\<rparr>)"

definition scan_api_file :: "string \<Rightarrow> route list" where
  "scan_api_file content =
     foldl (\<lambda>api_calls pattern.
              foldl (\<lambda>api_calls gs. api_calls @ [frontend_record gs])
                api_calls (findall pattern content))
       [] frontend_patterns"

definition extract_frontend_api_calls :: "string option \<Rightarrow> error + route list" where
  "extract_frontend_api_calls api_file =
     (case api_file of None \<Rightarrow> Inl OSError | Some content \<Rightarrow> Inr (scan_api_file content))"

section \<open>The consistency report\<close>

text \<open>The key \<^verbatim>\<open>f"{method}:{normalized}"\<close> of a route.\<close>

definition route_key :: "route \<Rightarrow> string" where
  "route_key r = method r @ '':'' @ normalize_path (path r)"

text \<open>
  \<^verbatim>\<open>s.add(x)\<close> on a Python set, kept as a list without repetitions. The order in which
  Python iterates over a set is not fixed; the only loop over \<open>backend_set\<close> stops at the
  first hit and its result is the same for every order (lemma \<open>key_found_iff\<close>).
\<close>

definition set_add :: "string list \<Rightarrow> string \<Rightarrow> string list" where
  "set_add s x = (if x \<in> set s then s else s @ [x])"

definition make_backend_set :: "(string \<times> route list) list \<Rightarrow> string list" where
  "make_backend_set backend_routes =
     foldl (\<lambda>backend_set (route_type, routes).
              foldl (\<lambda>backend_set route. set_add backend_set (route_key route))
                backend_set routes)
       [] backend_routes"

text \<open>The script also builds \<open>frontend_set\<close> and never reads it.\<close>

definition make_frontend_set :: "route list \<Rightarrow> string list" where
  "make_frontend_set frontend_calls =
     foldl (\<lambda>frontend_set call. set_add frontend_set (route_key call)) [] frontend_calls"

text \<open>The inner loop of the missing-backend check, with its \<^verbatim>\<open>break\<close>.\<close>

fun key_found :: "string \<Rightarrow> string list \<Rightarrow> bool" where
  "key_found key [] = False"
| "key_found key (backend_key # backend_set) =
     (if backend_key = key \<or>
         (str_in (replace '':id'' [] backend_key) key \<or>
          str_in (replace '':id'' [] key) backend_key)
      then True
      else key_found key backend_set)"

definition find_missing_backend :: "string list \<Rightarrow> route list \<Rightarrow> route list" where
  "find_missing_backend backend_set frontend_calls =
     foldl (\<lambda>missing_backend call.
              if \<not> key_found (route_key call) backend_set
              then missing_backend @ [call] else missing_backend)
       [] frontend_calls"

definition v22_features :: "(string \<times> string list) list" where
  "v22_features =
     [(''TAKARA Boost'',
         [''POST:/investments/:id/boost/takara'',
          ''GET:/investments/:id/boost/takara'']),
      (''Instant Sale'',
         [''PUT:/investments/:id/instant-sale'',
          ''POST:/investments/:id/instant-sale/execute'',
          ''GET:/investments/:id/instant-sale/price''])]"

text \<open>\<^verbatim>\<open>s.split(sep, 1)\<close> for a separator of one character.\<close>

definition split_once :: "char \<Rightarrow> string \<Rightarrow> string list" where
  "split_once sep s =
     (if sep \<in> set s
      then [takeWhile (\<lambda>c. c \<noteq> sep) s, drop 1 (dropWhile (\<lambda>c. c \<noteq> sep) s)]
      else [s])"

definition frontend_has :: "route list \<Rightarrow> string \<Rightarrow> string \<Rightarrow> bool" where
  "frontend_has frontend_calls meth normalized =
     list_ex (\<lambda>c. str_in (normalize_path (path c)) normalized \<or>
                   str_in normalized (normalize_path (path c)))
       (filter (\<lambda>c. method c = meth) frontend_calls)"

definition backend_has :: "(string \<times> route list) list \<Rightarrow> string \<Rightarrow> string \<Rightarrow> bool" where
  "backend_has backend_routes meth normalized =
     list_ex (\<lambda>r. str_in normalized (normalize_path (path r)) \<or>
                   str_in (normalize_path (path r)) normalized)
       (filter (\<lambda>r. method r = meth) (concat (map snd backend_routes)))"

text \<open>
  One line of the feature report: the expected route as written in the table, and whether
  the frontend and the backend have it.
\<close>

record verdict =
  expected :: string
  in_frontend :: bool
  in_backend :: bool

definition check_route :: "(string \<times> route list) list \<Rightarrow> route list \<Rightarrow> string \<Rightarrow> verdict" where
  "check_route backend_routes frontend_calls route =
     (case unpack2 (split_once (CHR '':'') route) of (meth, p) \<Rightarrow>
        let normalized = normalize_path p in
        \<lparr>expected = route,
         in_frontend = frontend_has frontend_calls meth normalized,
         in_backend = backend_has backend_routes meth normalized\<rparr>)"

text \<open>
  The two nested loops over the feature table. The state is the flag \<open>issues_found\<close>
  and the lines printed so far.
\<close>

definition check_features :: "(string \<times> route list) list \<Rightarrow> route list \<Rightarrow> bool \<Rightarrow> bool \<times> verdict list" where
  "check_features backend_routes frontend_calls issues_found =
     foldl (\<lambda>st (feature_name, expected_routes).
              foldl (\<lambda>(issues_found, printed) route.
                       let v = check_route backend_routes frontend_calls route in
                       (if \<not> (in_frontend v \<and> in_backend v) then True else issues_found,
                        printed @ [v]))
                st expected_routes)
       (issues_found, []) v22_features"

text \<open>What a run that reads both inputs reports, and the status it returns.\<close>

record report =
  missing_backend :: "route list"
  features :: "verdict list"
  exit_status :: nat

definition main :: "(string \<times> string option) list \<Rightarrow> string option \<Rightarrow> error + report" where
  "main route_files api_file =
     (case extract_backend_routes route_files of
        Inl e \<Rightarrow> Inl e
      | Inr backend_routes \<Rightarrow>
     (case extract_frontend_api_calls api_file of
        Inl e \<Rightarrow> Inl e
      | Inr frontend_calls \<Rightarrow>
          let backend_set = make_backend_set backend_routes;
              missing = find_missing_backend backend_set frontend_calls;
              issues_found = (if missing \<noteq> [] then True else False)
          in (case check_features backend_routes frontend_calls issues_found of
                (issues_found, printed) \<Rightarrow>
                  Inr \<lparr>missing_backend = missing,
                       features = printed,
                       exit_status = (if \<not> issues_found then 0 else 1)\<rparr>)))"

section \<open>The specification's reading of the missing-backend check\<close>

text \<open>
  The specification describes the check of one frontend key against \<open>backend_set\<close>
  as: an identical key exists, or, with \<^verbatim>\<open>:id\<close> removed from the key and from a
  backend key, one of the two texts occurs in the other.
\<close>

definition spec_found :: "string \<Rightarrow> string list \<Rightarrow> bool" where
  "spec_found key backend_set =
     (key \<in> set backend_set \<or>
      list_ex (\<lambda>backend_key.
                 str_in (replace '':id'' [] key) (replace '':id'' [] backend_key) \<or>
                 str_in (replace '':id'' [] backend_key) (replace '':id'' [] key))
        backend_set)"

section \<open>Notions used to state the properties\<close>

text \<open>The matches of all patterns in one text, pattern by pattern as the extractors
  collect them, each with the offset at which it starts.\<close>

definition backend_matches_at :: "string \<Rightarrow> (nat \<times> string list) list" where
  "backend_matches_at content = concat (map (\<lambda>pattern. findall_at pattern 0 content) backend_patterns)"

definition frontend_matches_at :: "string \<Rightarrow> (nat \<times> string list) list" where
  "frontend_matches_at content = concat (map (\<lambda>pattern. findall_at pattern 0 content) frontend_patterns)"

text \<open>The routes that the readable files of a listing declare.\<close>

definition declared_routes :: "(string \<times> string option) list \<Rightarrow> route set" where
  "declared_routes files =
     (\<Union>f\<in>set files. case snd f of None \<Rightarrow> {}
        | Some content \<Rightarrow> (backend_record \<circ> snd) ` set (backend_matches_at content))"

text \<open>A text contains an occurrence of a pattern when the pattern matches at some
  offset of it.\<close>

fun has_match :: "item list \<Rightarrow> string \<Rightarrow> bool" where
  "has_match p [] = (match_items p [] \<noteq> None)"
| "has_match p (c # cs) = (match_items p (c # cs) \<noteq> None \<or> has_match p cs)"

section \<open>The example of the specification\<close>

text \<open>A route file that declares \<^verbatim>\<open>GET '/users'\<close> and nothing else, and a client file
  whose only call is \<^verbatim>\<open>client.get('/users')\<close>.\<close>

definition users_routes_ts :: string where
  "users_routes_ts = ''router.get('/users', listUsers);''"

definition users_api_ts :: string where
  "users_api_ts = ''return this.client.get('/users');''"

section \<open>Files that mix the variants of a call\<close>

text \<open>A client file with a plain call followed by a call with a type parameter, and a
  route file with a double-quoted path followed by a single-quoted one.\<close>

definition mixed_api_ts :: string where
  "mixed_api_ts = ''a = this.client.get('/a'); b = this.client.get<T>('/b');''"

definition mixed_routes_ts :: string where
  "mixed_routes_ts = ''router.get(\"/a\", a); router.post('/b', b);''"

text \<open>The number of groups that a match of a pattern captures.\<close>

fun group_count :: "item list \<Rightarrow> nat" where
  "group_count [] = 0"
| "group_count (Lit l # its) = group_count its"
| "group_count (Alt ls # its) = Suc (group_count its)"
| "group_count (NotPlus c # its) = group_count its"
| "group_count (Capt c # its) = Suc (group_count its)"

section \<open>A listing of two route files\<close>

text \<open>Two route files that declare routes with both quote styles, and a client file
  with three calls, one of them with a type parameter and one without a backend route.\<close>

definition users_file :: "string \<times> string option" where
  "users_file = (''users.routes'', Some ''router.get('/users', list); router.get(\"/users/:id\", show);'')"

definition orders_file :: "string \<times> string option" where
  "orders_file = (''orders.routes'', Some ''router.post('/orders/:id/cancel', cancel);'')"

definition shop_api_ts :: string where
  "shop_api_ts =
     ''a = this.client.get('/users'); b = this.client.post<Order>('/orders/${id}/cancel'); c = this.client.put('/items');''"

section \<open>Facts about the matcher\<close>

lemma first_some_None: "first_some f xs = None \<longleftrightarrow> (\<forall>x\<in>set xs. f x = None)"
  by (induction xs) (auto split: option.splits)

lemma first_some_Some: "first_some f xs = Some y \<Longrightarrow> \<exists>x\<in>set xs. f x = Some y"
  by (induction xs) (auto split: option.splits)

lemma suffix_drop_trans: "suffix r (drop k s) \<Longrightarrow> suffix r s"
  using suffix_drop suffix_order.trans by blast

text \<open>What a match leaves behind is the end of the text it started from.\<close>

lemma match_items_suffix: "match_items p s = Some (gs, r) \<Longrightarrow> suffix r s"
proof (induction p s arbitrary: gs r rule: match_items.induct)
  case (1 s)
  then show ?case by simp
next
  case (2 l its s)
  from "2.prems" have pl: "prefix l s" and m: "match_items its (drop (length l) s) = Some (gs, r)"
    by (simp_all split: if_splits)
  from "2.IH"[OF pl m] show ?case by (rule suffix_drop_trans)
next
  case (3 ls its s)
  from "3.prems" have "first_some (\<lambda>l. if prefix l s
                      then map_option (\<lambda>(gs, r). (l # gs, r)) (match_items its (drop (length l) s))
                      else None) ls = Some (gs, r)" by simp
  from first_some_Some[OF this]
  obtain l gs' where "prefix l s" and "match_items its (drop (length l) s) = Some (gs', r)"
    by (auto split: if_splits)
  from "3.IH"[OF this] show ?case by (rule suffix_drop_trans)
next
  case (4 c its s)
  from "4.prems" have "first_some (\<lambda>k. match_items its (drop k s)) (greedy_lengths c s) = Some (gs, r)"
    by simp
  from first_some_Some[OF this]
  obtain k where "match_items its (drop k s) = Some (gs, r)" by auto
  from "4.IH"[OF this] show ?case by (rule suffix_drop_trans)
next
  case (5 c its s)
  from "5.prems" have "first_some (\<lambda>k. map_option (\<lambda>(gs, r). (take k s # gs, r)) (match_items its (drop k s)))
       (greedy_lengths c s) = Some (gs, r)" by simp
  from first_some_Some[OF this]
  obtain k gs' where "match_items its (drop k s) = Some (gs', r)" by auto
  from "5.IH"[OF this] show ?case by (rule suffix_drop_trans)
qed

lemma match_items_length: "match_items p s = Some (gs, r) \<Longrightarrow> length r \<le> length s"
  by (drule match_items_suffix) (rule suffix_length_le)

text \<open>A pattern that starts with a literal character consumes text and fixes the first
  character of its match.\<close>

lemma match_Lit_Cons:
  assumes "match_items (Lit (a # l) # its) s = Some (gs, r)"
  shows "length r < length s" and "hd s = a" and "s \<noteq> []"
proof -
  from assms have p: "prefix (a # l) s" and m: "match_items its (drop (Suc (length l)) s) = Some (gs, r)"
    by (simp_all split: if_splits)
  from p obtain t where s: "s = a # t" by (cases s) auto
  from match_items_length[OF m] s show "length r < length s" by simp
  from s show "hd s = a" "s \<noteq> []" by simp_all
qed

section \<open>Facts about normalisation\<close>

lemma re_sub_no_slash:
  "\<not> prefix ''/'' s \<Longrightarrow> \<not> prefix ''/'' (re_sub p '':id'' s)"
  by (cases s) (simp_all split: option.splits)

lemma lstrip_no_slash: "\<not> prefix ''/'' (lstrip ''/'' s)"
proof
  assume "prefix ''/'' (lstrip ''/'' s)"
  then obtain t where "dropWhile (\<lambda>c. c \<in> set ''/'') s = CHR ''/'' # t"
    unfolding lstrip_def prefix_def by auto
  then have "\<not> (CHR ''/'' \<in> set ''/'')"
    unfolding dropWhile_eq_Cons_conv by blast
  then show False by simp
qed

text \<open>
  Claim C7. The backend form \<^verbatim>\<open>/api/users/:id\<close> and the frontend form
  \<^verbatim>\<open>users/${userId}\<close> of the same route normalise to the same text, and that text
  is \<^verbatim>\<open>users/:id\<close>.
\<close>

theorem normalize_path_canonical:
  "normalize_path ''/api/users/:id'' = ''users/:id'' \<and>
   normalize_path ''users/${userId}'' = ''users/:id'' \<and>
   normalize_path ''/api/users/:id'' = normalize_path ''users/${userId}''"
  by code_simp

text \<open>
  Claim C10. A normalised path never starts with the separator \<^verbatim>\<open>/\<close>: the leading
  separators are stripped after the \<^verbatim>\<open>/api/\<close> replacement, and the two
  substitutions that follow put \<^verbatim>\<open>:id\<close> in the place of a match and leave every other
  character where it is.
\<close>

theorem normalize_path_no_leading_slash: "\<not> prefix ''/'' (normalize_path p)"
  unfolding normalize_path_def Let_def
  by (intro re_sub_no_slash lstrip_no_slash)

section \<open>The missing-backend check\<close>

lemma str_in_sublist: "str_in x s \<longleftrightarrow> sublist x s"
  by (induction s) (simp_all add: sublist_Cons_right)

lemma key_found_iff:
  "key_found key backend_set \<longleftrightarrow>
     (\<exists>bk\<in>set backend_set. bk = key \<or> sublist (replace '':id'' [] bk) key \<or>
                              sublist (replace '':id'' [] key) bk)"
  by (induction backend_set) (simp_all add: str_in_sublist)

lemma foldl_append_if:
  "foldl (\<lambda>acc x. if P x then acc @ [x] else acc) a xs = a @ filter P xs"
  by (induction xs arbitrary: a) simp_all

lemma find_missing_backend_filter:
  "find_missing_backend backend_set frontend_calls =
     filter (\<lambda>call. \<not> key_found (route_key call) backend_set) frontend_calls"
  unfolding find_missing_backend_def by (simp add: foldl_append_if)

text \<open>
  Claim C3, as the code has it. A frontend key is found exactly when \<open>backend_set\<close>
  holds the same key, or a backend key which, with \<^verbatim>\<open>:id\<close> removed from it, occurs in
  the frontend key as it stands, or in which the frontend key with \<^verbatim>\<open>:id\<close> removed
  occurs as the backend key stands. The calls reported are those whose key is not found.
  The order in which \<open>backend_set\<close> is traversed plays no role.
\<close>

theorem found_decision:
  "(key_found key backend_set \<longleftrightarrow>
      key \<in> set backend_set \<or>
      (\<exists>bk\<in>set backend_set. sublist (replace '':id'' [] bk) key \<or>
                               sublist (replace '':id'' [] key) bk)) \<and>
   find_missing_backend backend_set frontend_calls =
     filter (\<lambda>call. \<not> key_found (route_key call) backend_set) frontend_calls"
  unfolding key_found_iff find_missing_backend_filter by blast

theorem found_decision_witness:
  "key_found ''GET:users/:id'' [''POST:users'', ''GET:users/:id/posts''] \<and>
   find_missing_backend [''POST:users'', ''GET:users/:id/posts'']
     [\<lparr>method = ''GET'', path = ''/users/${id}''\<rparr>, \<lparr>method = ''PUT'', path = ''/x''\<rparr>]
     = [\<lparr>method = ''PUT'', path = ''/x''\<rparr>]"
  using found_decision[of "''GET:users/:id''" "[''POST:users'', ''GET:users/:id/posts'']"
      "[\<lparr>method = ''GET'', path = ''/users/${id}''\<rparr>, \<lparr>method = ''PUT'', path = ''/x''\<rparr>]"]
  by code_simp

text \<open>
  The reading of the specification, with \<^verbatim>\<open>:id\<close> removed on both sides before the
  comparison, differs from the code: for the frontend call \<^verbatim>\<open>GET /a/:id/b\<close> and the
  single backend route \<^verbatim>\<open>GET /a/:id/b/c\<close> the code does not find the call, the
  reading of the specification does.
\<close>

theorem found_decision_counterexample:
  "key_found (route_key \<lparr>method = ''GET'', path = ''/a/:id/b''\<rparr>)
     (make_backend_set [(''r'', [\<lparr>method = ''GET'', path = ''/a/:id/b/c''\<rparr>])]) = False \<and>
   spec_found (route_key \<lparr>method = ''GET'', path = ''/a/:id/b''\<rparr>)
     (make_backend_set [(''r'', [\<lparr>method = ''GET'', path = ''/a/:id/b/c''\<rparr>])]) = True"
  by code_simp

section \<open>The loops of the report\<close>

lemma extract_backend_routes_from_readable:
  "extract_backend_routes_from routes (map (\<lambda>(stem, content). (stem, Some content)) files) =
     Inr (foldl (\<lambda>routes (stem, content). scan_route_file stem content routes) routes files)"
  by (induction files arbitrary: routes) (simp_all add: case_prod_beta)

lemma check_route_loop:
  assumes F: "F = (\<lambda>(issues_found, printed) route.
             let v = chk route in
             (if \<not> (in_frontend v \<and> in_backend v) then True else issues_found, printed @ [v]))"
  shows "foldl F (i, pr) rs =
   (i \<or> \<not> list_all (\<lambda>v. in_frontend v \<and> in_backend v) (map chk rs), pr @ map chk rs)"
proof (induction rs arbitrary: i pr)
  case Nil
  show ?case by simp
next
  case (Cons r rs)
  have step: "F (i, pr) r = (i \<or> \<not> (in_frontend (chk r) \<and> in_backend (chk r)), pr @ [chk r])"
    unfolding F by (simp add: Let_def)
  show ?case unfolding foldl_Cons step Cons.IH by auto
qed

lemma check_feature_loop:
  assumes F: "F = (\<lambda>(issues_found, printed) route.
             let v = chk route in
             (if \<not> (in_frontend v \<and> in_backend v) then True else issues_found, printed @ [v]))"
    and G: "G = (\<lambda>st (feature_name, expected_routes). foldl F st expected_routes)"
  shows "foldl G (i, pr) fs =
   (i \<or> \<not> list_all (\<lambda>v. in_frontend v \<and> in_backend v) (map chk (concat (map snd fs))),
    pr @ map chk (concat (map snd fs)))"
proof (induction fs arbitrary: i pr)
  case Nil
  show ?case by simp
next
  case (Cons f fs)
  obtain n rs where f: "f = (n, rs)" by (cases f)
  have step: "G (i, pr) (n, rs) = foldl F (i, pr) rs" unfolding G by simp
  show ?case unfolding f foldl_Cons step check_route_loop[OF F] Cons.IH by auto
qed

lemma check_features_eq:
  "check_features backend_routes frontend_calls issues_found =
     (issues_found \<or> \<not> list_all (\<lambda>v. in_frontend v \<and> in_backend v)
         (map (check_route backend_routes frontend_calls) (concat (map snd v22_features))),
      map (check_route backend_routes frontend_calls) (concat (map snd v22_features)))"
  unfolding check_features_def
  by (subst check_feature_loop[OF refl refl]) simp

lemma main_Inr:
  assumes "extract_backend_routes route_files = Inr backend_routes"
    and "extract_frontend_api_calls api_file = Inr frontend_calls"
  shows "main route_files api_file =
     Inr \<lparr>missing_backend =
            filter (\<lambda>call. \<not> key_found (route_key call) (make_backend_set backend_routes)) frontend_calls,
          features = map (check_route backend_routes frontend_calls) (concat (map snd v22_features)),
          exit_status =
            (if filter (\<lambda>call. \<not> key_found (route_key call) (make_backend_set backend_routes)) frontend_calls = [] \<and>
                list_all (\<lambda>v. in_frontend v \<and> in_backend v)
                  (map (check_route backend_routes frontend_calls) (concat (map snd v22_features)))
             then 0 else 1)\<rparr>"
  unfolding main_def using assms
  by (simp add: check_features_eq find_missing_backend_filter Let_def)

section \<open>The extractors as lists of matches\<close>

lemma findall_at_findall: "map snd (findall_at p i s) = findall p s"
  by (induction p i s rule: findall_at.induct) (simp_all split: option.splits)

lemma map_findall_at: "map (\<lambda>x. f (snd x)) (findall_at p i s) = map f (findall p s)"
proof -
  have "map f (findall p s) = map f (map snd (findall_at p i s))"
    by (simp only: findall_at_findall)
  then show ?thesis by (simp add: comp_def)
qed

lemma foldl_foldl_concat:
  "foldl (\<lambda>acc x. foldl g acc (h x)) a xs = foldl g a (concat (map h xs))"
  by (induction xs arbitrary: a) simp_all

lemma foldl_map: "foldl (\<lambda>acc x. g acc (f x)) a xs = foldl g a (map f xs)"
  by (induction xs arbitrary: a) simp_all

lemma scan_route_file_eq:
  "scan_route_file stem content routes =
     foldl (\<lambda>routes r. dict_append routes stem r) routes
       (map (backend_record \<circ> snd) (backend_matches_at content))"
proof -
  have "scan_route_file stem content routes =
      foldl (\<lambda>routes gs. dict_append routes stem (backend_record gs)) routes
        (concat (map (\<lambda>pattern. findall pattern content) backend_patterns))"
    unfolding scan_route_file_def by (rule foldl_foldl_concat)
  also have "\<dots> = foldl (\<lambda>routes r. dict_append routes stem r) routes
        (map backend_record (concat (map (\<lambda>pattern. findall pattern content) backend_patterns)))"
    by (rule foldl_map)
  also have "map backend_record (concat (map (\<lambda>pattern. findall pattern content) backend_patterns)) =
      map (backend_record \<circ> snd) (backend_matches_at content)"
    unfolding backend_matches_at_def
    by (simp add: map_concat comp_def map_findall_at)
  finally show ?thesis .
qed

lemma scan_api_file_eq:
  "scan_api_file content = map (frontend_record \<circ> snd) (frontend_matches_at content)"
proof -
  have app: "foldl (\<lambda>acc r. acc @ [r]) a rs = a @ rs" for a rs :: "route list"
    by (induction rs arbitrary: a) simp_all
  have "scan_api_file content =
      foldl (\<lambda>api_calls gs. api_calls @ [frontend_record gs]) []
        (concat (map (\<lambda>pattern. findall pattern content) frontend_patterns))"
    unfolding scan_api_file_def by (rule foldl_foldl_concat)
  also have "\<dots> = foldl (\<lambda>api_calls r. api_calls @ [r]) []
        (map frontend_record (concat (map (\<lambda>pattern. findall pattern content) frontend_patterns)))"
    by (rule foldl_map)
  also have "\<dots> = map frontend_record (concat (map (\<lambda>pattern. findall pattern content) frontend_patterns))"
    by (simp add: app)
  also have "\<dots> = map (frontend_record \<circ> snd) (frontend_matches_at content)"
    unfolding frontend_matches_at_def
    by (simp add: map_concat comp_def map_findall_at)
  finally show ?thesis .
qed

lemma dict_append_routes:
  "set (concat (map snd (dict_append d k v))) = insert v (set (concat (map snd d)))"
  by (induction d k v rule: dict_append.induct) auto

lemma dict_append_fold_routes:
  "set (concat (map snd (foldl (\<lambda>routes r. dict_append routes stem r) d rs))) =
     set (concat (map snd d)) \<union> set rs"
proof (induction rs arbitrary: d)
  case Nil
  show ?case by simp
next
  case (Cons r rs)
  show ?case unfolding foldl_Cons Cons.IH dict_append_routes by simp
qed

lemma scan_route_file_routes:
  "set (concat (map snd (scan_route_file stem content routes))) =
     set (concat (map snd routes)) \<union> (backend_record \<circ> snd) ` set (backend_matches_at content)"
  unfolding scan_route_file_eq dict_append_fold_routes by simp

section \<open>The order of the route files\<close>

lemma declared_routes_Cons:
  "declared_routes ((stem, Some content) # files) =
     (backend_record \<circ> snd) ` set (backend_matches_at content) \<union> declared_routes files"
  unfolding declared_routes_def by simp

lemma declared_routes_set: "set fs = set fs' \<Longrightarrow> declared_routes fs = declared_routes fs'"
  unfolding declared_routes_def by simp

lemma extract_from_unreadable:
  "(stem, None) \<in> set files \<Longrightarrow> extract_backend_routes_from routes files = Inl OSError"
  by (induction routes files rule: extract_backend_routes_from.induct) auto

lemma extract_from_readable:
  "None \<notin> snd ` set files \<Longrightarrow>
   \<exists>br. extract_backend_routes_from routes files = Inr br \<and>
        set (concat (map snd br)) =
          set (concat (map snd routes)) \<union>
          declared_routes files"
proof (induction routes files rule: extract_backend_routes_from.induct)
  case (1 routes)
  show ?case by (simp add: declared_routes_def)
next
  case (2 routes stem files)
  then show ?case by simp
next
  case (3 routes stem content files)
  from "3.prems" have "None \<notin> snd ` set files" by auto
  from "3.IH"[OF this] obtain br where
    br: "extract_backend_routes_from (scan_route_file stem content routes) files = Inr br"
    and s: "set (concat (map snd br)) =
          set (concat (map snd (scan_route_file stem content routes))) \<union>
          declared_routes files"
    by blast
  show ?case
    unfolding extract_backend_routes_from.simps br
    using s unfolding scan_route_file_routes declared_routes_Cons by auto
qed

lemma extract_readable:
  "None \<notin> snd ` set files \<Longrightarrow>
   \<exists>br. extract_backend_routes files = Inr br \<and>
        set (concat (map snd br)) = declared_routes files"
  unfolding extract_backend_routes_def
  using extract_from_readable[of files "[]"] by simp

lemma set_add_fold: "set (foldl (\<lambda>s r. set_add s (f r)) s0 rs) = set s0 \<union> f ` set rs"
proof (induction rs arbitrary: s0)
  case Nil
  show ?case by simp
next
  case (Cons r rs)
  show ?case unfolding foldl_Cons Cons.IH by (auto simp: set_add_def)
qed

lemma make_backend_set_set:
  "set (make_backend_set backend_routes) = route_key ` set (concat (map snd backend_routes))"
proof -
  have "make_backend_set backend_routes =
      foldl (\<lambda>backend_set route. set_add backend_set (route_key route)) []
        (concat (map snd backend_routes))"
    unfolding make_backend_set_def
    by (subst foldl_foldl_concat[symmetric]) (simp add: case_prod_unfold)
  then show ?thesis by (simp only: set_add_fold) simp
qed

lemma key_found_set: "set bs = set bs' \<Longrightarrow> key_found key bs = key_found key bs'"
  unfolding key_found_iff by simp

lemma backend_has_set:
  "set (concat (map snd br)) = set (concat (map snd br')) \<Longrightarrow>
   backend_has br meth normalized = backend_has br' meth normalized"
  unfolding backend_has_def list_ex_iff set_filter by simp

lemma check_route_set:
  "set (concat (map snd br)) = set (concat (map snd br')) \<Longrightarrow>
   check_route br fc route = check_route br' fc route"
  unfolding check_route_def by (simp add: backend_has_set[of br br'] split: prod.splits)

lemma main_routes_set:
  assumes "extract_backend_routes fs = Inr br" and "extract_backend_routes fs' = Inr br'"
    and "set (concat (map snd br)) = set (concat (map snd br'))"
  shows "main fs api_file = main fs' api_file"
proof (cases api_file)
  case None
  then show ?thesis unfolding main_def using assms(1,2)
    by (simp add: extract_frontend_api_calls_def)
next
  case (Some content)
  then have fc: "extract_frontend_api_calls api_file = Inr (scan_api_file content)"
    by (simp add: extract_frontend_api_calls_def)
  have k: "key_found key (make_backend_set br) = key_found key (make_backend_set br')" for key
    by (rule key_found_set) (simp only: make_backend_set_set assms(3))
  have c: "check_route br fc route = check_route br' fc route" for fc route
    by (rule check_route_set[OF assms(3)])
  show ?thesis
    unfolding main_Inr[OF assms(1) fc] main_Inr[OF assms(2) fc] k c ..
qed

lemma main_Inl: "extract_backend_routes fs = Inl e \<Longrightarrow> main fs api_file = Inl e"
  unfolding main_def by (simp only: sum.case)

lemma main_files_set:
  assumes "set fs = set fs'"
  shows "main fs api_file = main fs' api_file"
proof (cases "None \<in> snd ` set fs")
  case True
  then obtain f where "f \<in> set fs" "snd f = None" by auto
  then have "(fst f, None) \<in> set fs" by (metis prod.collapse)
  then obtain stem where m: "(stem, None) \<in> set fs" ..
  then have m': "(stem, None) \<in> set fs'" unfolding assms .
  have "extract_backend_routes fs = Inl OSError" "extract_backend_routes fs' = Inl OSError"
    unfolding extract_backend_routes_def
    by (rule extract_from_unreadable[OF m], rule extract_from_unreadable[OF m'])
  then show ?thesis by (simp only: main_Inl)
next
  case False
  from extract_readable[OF False] obtain br where
    br: "extract_backend_routes fs = Inr br" and
    s: "set (concat (map snd br)) = declared_routes fs"
    by blast
  from False have "None \<notin> snd ` set fs'" unfolding assms .
  from extract_readable[OF this] obtain br' where
    br': "extract_backend_routes fs' = Inr br'" and
    s': "set (concat (map snd br')) = declared_routes fs'"
    by blast
  have "set (concat (map snd br)) = set (concat (map snd br'))"
    unfolding s s' declared_routes_set[OF assms] ..
  from main_routes_set[OF br br' this] show ?thesis .
qed

text \<open>
  Claim C9. The result of a run does not depend on the order in which the directory yields
  the route files: two listings with the same files in any two orders give the same error,
  or the same list of missing-backend calls, the same verdict for every feature
  expectation and the same exit status.
\<close>

theorem main_order_independent:
  "mset route_files = mset route_files' \<Longrightarrow>
   main route_files api_file = main route_files' api_file"
  by (rule main_files_set) (rule mset_eq_setD)

text \<open>
  The theorem at the two route files \<open>users_file\<close> and \<open>orders_file\<close> and the client
  file \<open>shop_api_ts\<close>, in both orders of the files. The groups come out in the order of the listing, so the two
  extractions differ; the report is the same. Two of the three calls are found, each in
  another file, and the third is reported.
\<close>

theorem main_order_independent_witness:
  "mset [users_file, orders_file] = mset [orders_file, users_file] \<and>
   main [users_file, orders_file] (Some shop_api_ts) =
   main [orders_file, users_file] (Some shop_api_ts) \<and>
   extract_backend_routes [users_file, orders_file] =
     Inr [(''users.routes'', [\<lparr>method = ''GET'', path = ''/users''\<rparr>,
                               \<lparr>method = ''GET'', path = ''/users/:id''\<rparr>]),
          (''orders.routes'', [\<lparr>method = ''POST'', path = ''/orders/:id/cancel''\<rparr>])] \<and>
   extract_backend_routes [orders_file, users_file] =
     Inr [(''orders.routes'', [\<lparr>method = ''POST'', path = ''/orders/:id/cancel''\<rparr>]),
          (''users.routes'', [\<lparr>method = ''GET'', path = ''/users''\<rparr>,
                               \<lparr>method = ''GET'', path = ''/users/:id''\<rparr>])] \<and>
   map_sum id missing_backend (main [users_file, orders_file] (Some shop_api_ts)) =
     Inr [\<lparr>method = ''PUT'', path = ''/items''\<rparr>] \<and>
   map_sum id exit_status (main [users_file, orders_file] (Some shop_api_ts)) = Inr 1"
proof -
  have h: "mset [users_file, orders_file] = mset [orders_file, users_file]"
    by (simp add: add_mset_commute)
  have a: "extract_backend_routes [users_file, orders_file] =
     Inr [(''users.routes'', [\<lparr>method = ''GET'', path = ''/users''\<rparr>,
                               \<lparr>method = ''GET'', path = ''/users/:id''\<rparr>]),
          (''orders.routes'', [\<lparr>method = ''POST'', path = ''/orders/:id/cancel''\<rparr>])]"
    by code_simp
  have b: "extract_backend_routes [orders_file, users_file] =
     Inr [(''orders.routes'', [\<lparr>method = ''POST'', path = ''/orders/:id/cancel''\<rparr>]),
          (''users.routes'', [\<lparr>method = ''GET'', path = ''/users''\<rparr>,
                               \<lparr>method = ''GET'', path = ''/users/:id''\<rparr>])]"
    by code_simp
  have c: "map_sum id missing_backend (main [users_file, orders_file] (Some shop_api_ts)) =
     Inr [\<lparr>method = ''PUT'', path = ''/items''\<rparr>]"
    by code_simp
  have d: "map_sum id exit_status (main [users_file, orders_file] (Some shop_api_ts)) = Inr 1"
    by code_simp
  from h main_order_independent[OF h, of "Some shop_api_ts"] a b c d
  show ?thesis by (intro conjI)
qed

section \<open>Texts without a match\<close>

lemma has_match_iff: "has_match p s \<longleftrightarrow> (\<exists>i\<le>length s. match_items p (drop i s) \<noteq> None)"
proof (induction s)
  case Nil
  show ?case by simp
next
  case (Cons c cs)
  show ?case
  proof
    assume "has_match p (c # cs)"
    then consider "match_items p (c # cs) \<noteq> None" | "has_match p cs" by auto
    then show "\<exists>i\<le>length (c # cs). match_items p (drop i (c # cs)) \<noteq> None"
    proof cases
      case 1
      then have "match_items p (drop 0 (c # cs)) \<noteq> None" by simp
      then show ?thesis by blast
    next
      case 2
      with Cons.IH obtain i where "i \<le> length cs" "match_items p (drop i cs) \<noteq> None" by blast
      then have "Suc i \<le> length (c # cs)" "match_items p (drop (Suc i) (c # cs)) \<noteq> None" by simp_all
      then show ?thesis by blast
    qed
  next
    assume "\<exists>i\<le>length (c # cs). match_items p (drop i (c # cs)) \<noteq> None"
    then obtain i where i: "i \<le> length (c # cs)" "match_items p (drop i (c # cs)) \<noteq> None" by blast
    show "has_match p (c # cs)"
    proof (cases i)
      case 0
      with i show ?thesis by simp
    next
      case (Suc k)
      with i have "k \<le> length cs" "match_items p (drop k cs) \<noteq> None" by simp_all
      with Cons.IH have "has_match p cs" by blast
      then show ?thesis by simp
    qed
  qed
qed

lemma findall_no_match: "\<not> has_match p s \<Longrightarrow> findall p s = []"
proof (induction s)
  case Nil
  show ?case by simp
next
  case (Cons c cs)
  from Cons.prems have n: "match_items p (c # cs) = None" and h: "\<not> has_match p cs"
    unfolding has_match.simps by blast+
  from Cons.IH[OF h] n show ?case by simp
qed

lemma foldl_no_matches:
  "(\<And>p. p \<in> set ps \<Longrightarrow> findall p content = []) \<Longrightarrow>
   foldl (\<lambda>acc p. foldl g acc (findall p content)) a ps = a"
  by (induction ps arbitrary: a) simp_all

lemma scan_api_file_no_match:
  "list_all (\<lambda>p. \<not> has_match p content) frontend_patterns \<Longrightarrow> scan_api_file content = []"
  unfolding scan_api_file_def
  by (rule foldl_no_matches) (simp add: list_all_iff findall_no_match)

lemma scan_route_file_no_match:
  "list_all (\<lambda>p. \<not> has_match p content) backend_patterns \<Longrightarrow>
   scan_route_file stem content routes = routes"
  unfolding scan_route_file_def
  by (rule foldl_no_matches) (simp add: list_all_iff findall_no_match)

lemma extract_from_no_match:
  "list_all (\<lambda>f. case snd f of None \<Rightarrow> False
        | Some content \<Rightarrow> list_all (\<lambda>p. \<not> has_match p content) backend_patterns) files \<Longrightarrow>
   extract_backend_routes_from routes files = Inr routes"
  by (induction routes files rule: extract_backend_routes_from.induct)
     (simp_all add: scan_route_file_no_match)

text \<open>
  Claim C8. For a readable text in which no pattern of the extractor matches at any offset,
  the frontend extractor returns the empty list; for a listing of readable route files in
  none of which a backend pattern matches, the backend extractor returns the grouping
  without any group. Neither returns an error.
\<close>

theorem extractors_empty:
  "(list_all (\<lambda>p. \<not> has_match p content) frontend_patterns \<longrightarrow>
      extract_frontend_api_calls (Some content) = Inr []) \<and>
   (list_all (\<lambda>f. case snd f of None \<Rightarrow> False
        | Some content \<Rightarrow> list_all (\<lambda>p. \<not> has_match p content) backend_patterns) route_files \<longrightarrow>
      extract_backend_routes route_files = Inr [])"
  unfolding extract_backend_routes_def extract_frontend_api_calls_def
  by (simp add: scan_api_file_no_match extract_from_no_match)

theorem extractors_empty_witness:
  "list_all (\<lambda>p. \<not> has_match p ''const api = axios.create();'') frontend_patterns \<and>
   extract_frontend_api_calls (Some ''const api = axios.create();'') = Inr [] \<and>
   list_all (\<lambda>f. case snd f of None \<Rightarrow> False
        | Some content \<Rightarrow> list_all (\<lambda>p. \<not> has_match p content) backend_patterns)
     [(''index.routes'', Some ''export default router;''), (''empty.routes'', Some [])] \<and>
   extract_backend_routes [(''index.routes'', Some ''export default router;''), (''empty.routes'', Some [])] = Inr []"
proof -
  have a: "list_all (\<lambda>p. \<not> has_match p ''const api = axios.create();'') frontend_patterns"
    by code_simp
  have b: "list_all (\<lambda>f. case snd f of None \<Rightarrow> False
        | Some content \<Rightarrow> list_all (\<lambda>p. \<not> has_match p content) backend_patterns)
     [(''index.routes'', Some ''export default router;''), (''empty.routes'', Some [])]"
    by code_simp
  from a b extractors_empty[of "''const api = axios.create();''"
      "[(''index.routes'', Some ''export default router;''), (''empty.routes'', Some [])]"]
  show ?thesis by blast
qed

section \<open>The exit status\<close>

lemma expected_check_route: "expected (check_route br fc route) = route"
  unfolding check_route_def by (simp add: Let_def split: prod.splits)

text \<open>
  Claim C1. When every route file and the client file can be read, the run returns a
  report, and its exit status is 0 exactly when no frontend call is listed as missing in
  the backend and every expectation of the fixed feature table is met on the frontend side
  and on the backend side; otherwise it is 1. The calls listed are those whose key is not
  found, and the verdicts are those of the five expectations of the table, in its order.
\<close>

theorem exit_status_iff:
  assumes "None \<notin> snd ` set route_files" and "api_file = Some content"
  shows "\<exists>br fc r.
           extract_backend_routes route_files = Inr br \<and>
           extract_frontend_api_calls api_file = Inr fc \<and>
           main route_files api_file = Inr r \<and>
           missing_backend r = filter (\<lambda>call. \<not> key_found (route_key call) (make_backend_set br)) fc \<and>
           features r = map (check_route br fc) (concat (map snd v22_features)) \<and>
           map expected (features r) = concat (map snd v22_features) \<and>
           exit_status r =
             (if missing_backend r = [] \<and>
                 list_all (\<lambda>v. in_frontend v \<and> in_backend v) (features r)
              then 0 else 1)"
proof -
  from extract_readable[OF assms(1)] obtain br where
    br: "extract_backend_routes route_files = Inr br" by blast
  have fc: "extract_frontend_api_calls api_file = Inr (scan_api_file content)"
    unfolding assms(2) extract_frontend_api_calls_def by simp
  have e: "map (expected \<circ> check_route br fc) rs = rs" for fc rs
    by (induction rs) (simp_all add: expected_check_route)
  show ?thesis
    by (intro exI conjI, rule br, rule fc, rule main_Inr[OF br fc]) (simp_all add: e)
qed


theorem exit_status_iff_witness:
  "None \<notin> snd ` set [(''users.routes'', Some ''router.get('/users', listUsers);'')] \<and>
   (\<exists>br fc r.
           extract_backend_routes [(''users.routes'', Some ''router.get('/users', listUsers);'')] = Inr br \<and>
           extract_frontend_api_calls (Some ''return this.client.get('/users');'') = Inr fc \<and>
           main [(''users.routes'', Some ''router.get('/users', listUsers);'')]
             (Some ''return this.client.get('/users');'') = Inr r \<and>
           missing_backend r = filter (\<lambda>call. \<not> key_found (route_key call) (make_backend_set br)) fc \<and>
           features r = map (check_route br fc) (concat (map snd v22_features)) \<and>
           map expected (features r) = concat (map snd v22_features) \<and>
           exit_status r =
             (if missing_backend r = [] \<and>
                 list_all (\<lambda>v. in_frontend v \<and> in_backend v) (features r)
              then 0 else 1))"
proof -
  have h: "None \<notin> snd ` set [(''users.routes'', Some ''router.get('/users', listUsers);'')]"
    by simp
  from h exit_status_iff[OF h refl, of "''return this.client.get('/users');''"]
  show ?thesis by (rule conjI)
qed

text \<open>
  Claim C2. For the example of the specification the run lists no missing-backend call,
  but its exit status is not 0.
\<close>

theorem users_example_counterexample:
  "map_sum id exit_status (main [(''users.routes'', Some users_routes_ts)] (Some users_api_ts)) \<noteq> Inr 0"
  by code_simp

text \<open>
  Claim C2, as the code has it. For that example the run lists no missing-backend call,
  finds none of the five expectations of the feature table on either side, since the table
  is checked whatever the files declare, and ends with exit status 1.
\<close>

theorem users_example:
  "main [(''users.routes'', Some users_routes_ts)] (Some users_api_ts) =
     Inr \<lparr>missing_backend = [],
          features =
            [\<lparr>expected = ''POST:/investments/:id/boost/takara'', in_frontend = False, in_backend = False\<rparr>,
             \<lparr>expected = ''GET:/investments/:id/boost/takara'', in_frontend = False, in_backend = False\<rparr>,
             \<lparr>expected = ''PUT:/investments/:id/instant-sale'', in_frontend = False, in_backend = False\<rparr>,
             \<lparr>expected = ''POST:/investments/:id/instant-sale/execute'', in_frontend = False, in_backend = False\<rparr>,
             \<lparr>expected = ''GET:/investments/:id/instant-sale/price'', in_frontend = False, in_backend = False\<rparr>],
          exit_status = 1\<rparr>"
  by code_simp

section \<open>The order of the extracted records\<close>

lemma suffix_is_drop: "suffix r s \<Longrightarrow> r = drop (length s - length r) s"
  by (auto simp: suffix_def)

lemma drop_Cons_diff: "Suc i \<le> j \<Longrightarrow> drop (j - i) (c # cs) = drop (j - Suc i) cs"
proof -
  assume "Suc i \<le> j"
  then have "j - i = Suc (j - Suc i)" by arith
  then show ?thesis by simp
qed

lemma findall_at_match:
  "(j, gs) \<in> set (findall_at p i s) \<Longrightarrow>
     i \<le> j \<and> j < i + length s \<and> (\<exists>r. match_items p (drop (j - i) s) = Some (gs, r))"
proof (induction p i s rule: findall_at.induct)
  case (1 p i)
  then show ?case by simp
next
  case (2 p i c cs)
  show ?case
  proof (cases "match_items p (c # cs)")
    case None
    with "2.prems" have "(j, gs) \<in> set (findall_at p (Suc i) cs)" by simp
    from "2.IH"(1)[OF None this] obtain r where
      "Suc i \<le> j" "j < Suc i + length cs" "match_items p (drop (j - Suc i) cs) = Some (gs, r)"
      by blast
    moreover from \<open>Suc i \<le> j\<close> have "drop (j - i) (c # cs) = drop (j - Suc i) cs"
      by (rule drop_Cons_diff)
    ultimately show ?thesis by simp
  next
    case (Some x)
    obtain gs' rest where x: "x = (gs', rest)" by (cases x)
    show ?thesis
    proof (cases "length rest < length (c # cs)")
      case True
      from Some x have m: "match_items p (c # cs) = Some (gs', rest)" by simp
      let ?n = "length (c # cs) - length rest"
      from match_items_suffix[OF m] have rest: "rest = drop ?n (c # cs)"
        by (rule suffix_is_drop)
      from "2.prems" m True have
        "(j, gs) = (i, gs') \<or> (j, gs) \<in> set (findall_at p (i + ?n) rest)"
        by simp
      then show ?thesis
      proof
        assume "(j, gs) = (i, gs')"
        with m show ?thesis by simp
      next
        assume "(j, gs) \<in> set (findall_at p (i + ?n) rest)"
        from "2.IH"(2)[OF Some x[symmetric] True this] obtain r where
          j: "i + ?n \<le> j" "j < i + ?n + length rest"
          and r: "match_items p (drop (j - (i + ?n)) rest) = Some (gs, r)"
          by blast
        have "drop (j - (i + ?n)) rest = drop (j - (i + ?n) + ?n) (c # cs)"
          by (subst rest) (simp only: drop_drop)
        also from j(1) have "j - (i + ?n) + ?n = j - i" by simp
        finally have "match_items p (drop (j - i) (c # cs)) = Some (gs, r)" using r by simp
        moreover from j True have "i \<le> j" "j < i + length (c # cs)" by simp_all
        ultimately show ?thesis by blast
      qed
    next
      case False
      with "2.prems" Some x have "(j, gs) \<in> set (findall_at p (Suc i) cs)" by simp
      from "2.IH"(3)[OF Some x[symmetric] False this] obtain r where
        "Suc i \<le> j" "j < Suc i + length cs" "match_items p (drop (j - Suc i) cs) = Some (gs, r)"
        by blast
      moreover from \<open>Suc i \<le> j\<close> have "drop (j - i) (c # cs) = drop (j - Suc i) cs"
        by (rule drop_Cons_diff)
      ultimately show ?thesis by simp
    qed
  qed
qed

lemma findall_at_sorted: "sorted_wrt (<) (map fst (findall_at p i s))"
proof (induction p i s rule: findall_at.induct)
  case (1 p i)
  show ?case by simp
next
  case (2 p i c cs)
  show ?case
  proof (cases "match_items p (c # cs)")
    case None
    with "2.IH"(1) show ?thesis by simp
  next
    case (Some x)
    obtain gs' rest where x: "x = (gs', rest)" by (cases x)
    show ?thesis
    proof (cases "length rest < length (c # cs)")
      case True
      let ?n = "length (c # cs) - length rest"
      have "i < j" if "(j, gs) \<in> set (findall_at p (i + ?n) rest)" for j gs
      proof -
        from findall_at_match[OF that] have "i + ?n \<le> j" by blast
        moreover from True have "0 < ?n" by simp
        ultimately show ?thesis by linarith
      qed
      with "2.IH"(2)[OF Some x[symmetric] True] Some x True show ?thesis by auto
    next
      case False
      with "2.IH"(3)[OF Some x[symmetric] False] Some x show ?thesis by simp
    qed
  qed
qed

lemma dict_append_fold_group:
  "foldl (\<lambda>routes r. dict_append routes stem r) [(stem, xs)] rs = [(stem, xs @ rs)]"
  by (induction rs arbitrary: xs) simp_all

lemma dict_append_fold_empty:
  "foldl (\<lambda>routes r. dict_append routes stem r) [] rs = (if rs = [] then [] else [(stem, rs)])"
  by (cases rs) (simp_all add: dict_append_fold_group)


text \<open>
  Claim C6, as the code has it. Each extractor goes through its patterns in the order of
  the pattern list and, for each pattern, appends the matches of that pattern over the
  whole text. The matches of one pattern are in source order: their offsets increase, and
  each offset is a place in the text where the pattern matches with those groups. The
  records of a file in which only one pattern matches are therefore in source order.
\<close>

theorem extraction_order:
  "extract_frontend_api_calls (Some content) =
     Inr (map (frontend_record \<circ> snd)
            (concat (map (\<lambda>pattern. findall_at pattern 0 content) frontend_patterns))) \<and>
   extract_backend_routes [(stem, Some content)] =
     Inr (let rs = map (backend_record \<circ> snd)
                     (concat (map (\<lambda>pattern. findall_at pattern 0 content) backend_patterns))
          in if rs = [] then [] else [(stem, rs)]) \<and>
   sorted_wrt (<) (map fst (findall_at pattern 0 content)) \<and>
   (\<forall>(i, gs)\<in>set (findall_at pattern 0 content).
      i < length content \<and> (\<exists>r. match_items pattern (drop i content) = Some (gs, r)))"
proof (intro conjI)
  show "extract_frontend_api_calls (Some content) =
     Inr (map (frontend_record \<circ> snd)
            (concat (map (\<lambda>pattern. findall_at pattern 0 content) frontend_patterns)))"
    unfolding extract_frontend_api_calls_def scan_api_file_eq frontend_matches_at_def by simp
  show "extract_backend_routes [(stem, Some content)] =
     Inr (let rs = map (backend_record \<circ> snd)
                     (concat (map (\<lambda>pattern. findall_at pattern 0 content) backend_patterns))
          in if rs = [] then [] else [(stem, rs)])"
    unfolding extract_backend_routes_def extract_backend_routes_from.simps scan_route_file_eq
      dict_append_fold_empty backend_matches_at_def Let_def ..
  show "sorted_wrt (<) (map fst (findall_at pattern 0 content))"
    by (rule findall_at_sorted)
  show "\<forall>(i, gs)\<in>set (findall_at pattern 0 content).
      i < length content \<and> (\<exists>r. match_items pattern (drop i content) = Some (gs, r))"
  proof (intro ballI, clarify)
    fix i gs
    assume "(i, gs) \<in> set (findall_at pattern 0 content)"
    from findall_at_match[OF this]
    show "i < length content \<and> (\<exists>r. match_items pattern (drop i content) = Some (gs, r))"
      by simp
  qed
qed

theorem extraction_order_witness:
  "findall_at (frontend_patterns ! 2) 0 mixed_api_ts = [(4, [''get'', ''/a''])] \<and>
   4 < length mixed_api_ts \<and>
   (\<exists>r. match_items (frontend_patterns ! 2) (drop 4 mixed_api_ts) = Some ([''get'', ''/a''], r))"
proof -
  have f: "findall_at (frontend_patterns ! 2) 0 mixed_api_ts = [(4, [''get'', ''/a''])]"
    by code_simp
  from extraction_order[of mixed_api_ts "''api''" "frontend_patterns ! 2"]
  have "\<forall>(i, gs)\<in>set (findall_at (frontend_patterns ! 2) 0 mixed_api_ts).
      i < length mixed_api_ts \<and>
      (\<exists>r. match_items (frontend_patterns ! 2) (drop i mixed_api_ts) = Some (gs, r))"
    by blast
  with f show ?thesis by simp
qed

text \<open>
  Claim C6 as stated fails for files that mix the variants. In the client file above the
  call of \<^verbatim>\<open>/a\<close> stands at offset 4 and the call of \<^verbatim>\<open>/b\<close> at offset 31, and
  the extractor returns \<^verbatim>\<open>/b\<close> first; in the route file the declaration of
  \<^verbatim>\<open>/a\<close> stands at offset 0 and that of \<^verbatim>\<open>/b\<close> at offset 21, and the group
  holds \<^verbatim>\<open>/b\<close> first.
\<close>

theorem extraction_order_counterexample:
  "extract_frontend_api_calls (Some mixed_api_ts) =
     Inr [\<lparr>method = ''GET'', path = ''/b''\<rparr>, \<lparr>method = ''GET'', path = ''/a''\<rparr>] \<and>
   map fst (frontend_matches_at mixed_api_ts) = [31, 4] \<and>
   extract_backend_routes [(''mixed.routes'', Some mixed_routes_ts)] =
     Inr [(''mixed.routes'',
           [\<lparr>method = ''POST'', path = ''/b''\<rparr>, \<lparr>method = ''GET'', path = ''/a''\<rparr>])] \<and>
   map fst (backend_matches_at mixed_routes_ts) = [21, 0]"
  by code_simp

section \<open>The two parameter patterns\<close>

text \<open>With a greedy repetition in front of the character it excludes, only the longest
  run can be followed by that character, so the first attempt decides.\<close>

lemma first_some_Cons_rest_None:
  "(\<And>y. y \<in> set xs \<Longrightarrow> f y = None) \<Longrightarrow> first_some f (x # xs) = f x"
  by (cases "f x") (simp_all add: first_some_None)

lemma greedy_lengths_Nil: "takeWhile (\<lambda>x. x \<noteq> c) s = [] \<Longrightarrow> greedy_lengths c s = []"
  unfolding greedy_lengths_def by simp

lemma greedy_lengths_Cons:
  "takeWhile (\<lambda>x. x \<noteq> c) s \<noteq> [] \<Longrightarrow>
   greedy_lengths c s =
     length (takeWhile (\<lambda>x. x \<noteq> c) s) # rev [1 ..< length (takeWhile (\<lambda>x. x \<noteq> c) s)]"
  unfolding greedy_lengths_def by (cases "length (takeWhile (\<lambda>x. x \<noteq> c) s)") simp_all

lemma colon_match:
  "match_items colon_param s =
     (case s of [] \<Rightarrow> None
      | a # t \<Rightarrow> if a = CHR '':'' \<and> takeWhile (\<lambda>x. x \<noteq> CHR ''/'') t \<noteq> []
                 then Some ([], dropWhile (\<lambda>x. x \<noteq> CHR ''/'') t) else None)"
proof (cases s)
  case Nil
  then show ?thesis by (simp add: colon_param_def)
next
  case (Cons a t)
  show ?thesis
  proof (cases "takeWhile (\<lambda>x. x \<noteq> CHR ''/'') t = []")
    case True
    then show ?thesis unfolding Cons colon_param_def
      by (simp add: greedy_lengths_Nil)
  next
    case False
    then show ?thesis unfolding Cons colon_param_def
      by (simp add: greedy_lengths_Cons dropWhile_eq_drop)
  qed
qed

lemma colon_sub_Cons:
  "re_sub colon_param r (a # t) =
     (if a = CHR '':'' \<and> takeWhile (\<lambda>x. x \<noteq> CHR ''/'') t \<noteq> []
      then r @ re_sub colon_param r (dropWhile (\<lambda>x. x \<noteq> CHR ''/'') t)
      else a # re_sub colon_param r t)"
proof -
  have "length (dropWhile (\<lambda>x. x \<noteq> CHR ''/'') t) < Suc (length t)"
    using length_dropWhile_le[of "\<lambda>x. x \<noteq> CHR ''/''" t] by simp
  then show ?thesis by (simp add: colon_match)
qed

lemma template_match_other: "\<not> prefix ''${'' s \<Longrightarrow> match_items template_param s = None"
  by (simp add: template_param_def)

lemma template_match:
  "match_items template_param (CHR ''$'' # CHR ''{'' # t) =
     (if takeWhile (\<lambda>x. x \<noteq> CHR ''}'') t \<noteq> [] \<and> dropWhile (\<lambda>x. x \<noteq> CHR ''}'') t \<noteq> []
      then Some ([], tl (dropWhile (\<lambda>x. x \<noteq> CHR ''}'') t)) else None)"
proof -
  define n where "n = length (takeWhile (\<lambda>x. x \<noteq> CHR ''}'') t)"
  let ?f = "\<lambda>k. match_items [Lit ''}''] (drop k t)"
  have m: "match_items template_param (CHR ''$'' # CHR ''{'' # t) =
      first_some ?f (greedy_lengths (CHR ''}'') t)"
    unfolding template_param_def by simp
  show ?thesis
  proof (cases "takeWhile (\<lambda>x. x \<noteq> CHR ''}'') t = []")
    case e: True
    then show ?thesis unfolding m
      by (simp add: greedy_lengths_Nil)
  next
    case ne: False
    have short: "?f k = None" if "k \<in> set (rev [1 ..< n])" for k
    proof -
      from that have k: "k < n" by simp
      then have kt: "k < length t"
        unfolding n_def using length_takeWhile_le[of "\<lambda>x. x \<noteq> CHR ''}''" t] by simp
      then have "drop k t = t ! k # drop (Suc k) t"
        by (simp add: Cons_nth_drop_Suc)
      moreover have "t ! k \<noteq> CHR ''}''"
      proof -
        from k have "takeWhile (\<lambda>x. x \<noteq> CHR ''}'') t ! k = t ! k"
          unfolding n_def by (rule takeWhile_nth)
        moreover from k have "takeWhile (\<lambda>x. x \<noteq> CHR ''}'') t ! k \<in> set (takeWhile (\<lambda>x. x \<noteq> CHR ''}'') t)"
          unfolding n_def by (rule nth_mem)
        ultimately show ?thesis by (auto dest: set_takeWhileD)
      qed
      ultimately show ?thesis by simp
    qed
    have d: "drop n t = dropWhile (\<lambda>x. x \<noteq> CHR ''}'') t"
      unfolding n_def by (simp add: dropWhile_eq_drop)
    have long: "?f n = (if dropWhile (\<lambda>x. x \<noteq> CHR ''}'') t \<noteq> []
        then Some ([], tl (dropWhile (\<lambda>x. x \<noteq> CHR ''}'') t)) else None)"
    proof (cases "dropWhile (\<lambda>x. x \<noteq> CHR ''}'') t")
      case Nil
      have "?f n = match_items [Lit ''}''] []" unfolding d Nil ..
      also have "\<dots> = None" by simp
      finally show ?thesis unfolding Nil by simp
    next
      case (Cons b u)
      then have "\<not> (b \<noteq> CHR ''}'')"
        unfolding dropWhile_eq_Cons_conv by blast
      with Cons show ?thesis unfolding d by simp
    qed
    have "first_some ?f (greedy_lengths (CHR ''}'') t) = ?f n"
      unfolding greedy_lengths_Cons[OF ne] n_def[symmetric]
      by (rule first_some_Cons_rest_None) (rule short)
    then show ?thesis unfolding m long using ne by simp
  qed
qed

section \<open>Substitution, case by case\<close>

lemma re_sub_Cons_cases:
  obtains (skip) "re_sub q r (c # cs) = c # re_sub q r cs"
      and "\<And>gs rest. match_items q (c # cs) = Some (gs, rest) \<Longrightarrow> \<not> length rest < length (c # cs)"
  | (match) gs rest where "match_items q (c # cs) = Some (gs, rest)"
      and "length rest < length (c # cs)" and "suffix rest (c # cs)"
      and "re_sub q r (c # cs) = r @ re_sub q r rest"
proof (cases "match_items q (c # cs)")
  case None
  have "re_sub q r (c # cs) = c # re_sub q r cs" using None by simp
  moreover have "\<not> length rest < length (c # cs)"
    if "match_items q (c # cs) = Some (gs, rest)" for gs rest
    using that None by simp
  ultimately show ?thesis by (rule skip)
next
  case (Some x)
  obtain gs rest where x: "x = (gs, rest)" by (cases x)
  have m: "match_items q (c # cs) = Some (gs, rest)" using Some x by simp
  show ?thesis
  proof (cases "length rest < length (c # cs)")
    case True
    have "re_sub q r (c # cs) = r @ re_sub q r rest" using m True by simp
    with m True match_items_suffix[OF m] show ?thesis by (rule match)
  next
    case False
    have "re_sub q r (c # cs) = c # re_sub q r cs" using m False by simp
    moreover have "\<not> length rest' < length (c # cs)"
      if "match_items q (c # cs) = Some (gs', rest')" for gs' rest'
      using that m False by simp
    ultimately show ?thesis by (rule skip)
  qed
qed

lemma re_sub_cases [case_names Nil skip match]:
  assumes "P []"
    and "\<And>c cs. re_sub q r (c # cs) = c # re_sub q r cs \<Longrightarrow>
            (\<And>gs rest. match_items q (c # cs) = Some (gs, rest) \<Longrightarrow> \<not> length rest < length (c # cs)) \<Longrightarrow>
            P cs \<Longrightarrow> P (c # cs)"
    and "\<And>c cs gs rest. match_items q (c # cs) = Some (gs, rest) \<Longrightarrow>
            length rest < length (c # cs) \<Longrightarrow> suffix rest (c # cs) \<Longrightarrow>
            re_sub q r (c # cs) = r @ re_sub q r rest \<Longrightarrow> P rest \<Longrightarrow> P (c # cs)"
  shows "P s"
proof (induction s rule: length_induct)
  case (1 s)
  show ?case
  proof (cases s)
    case Nil
    show ?thesis unfolding Nil by (rule assms(1))
  next
    case (Cons c cs)
    show ?thesis
    proof (cases rule: re_sub_Cons_cases[of q r c cs])
      case skip
      have "P cs" using "1.IH" Cons by simp
      with skip show ?thesis unfolding Cons by (rule assms(2))
    next
      case (match gs rest)
      have "P rest" using "1.IH" Cons match(2) by simp
      with match show ?thesis unfolding Cons by (rule assms(3))
    qed
  qed
qed

lemma suffix_set: "suffix r s \<Longrightarrow> set r \<subseteq> set s"
  by (auto simp: suffix_def)

lemma re_sub_set: "set (re_sub q r s) \<subseteq> set s \<union> set r"
proof (induction s rule: re_sub_cases[of _ q r])
  case Nil
  show ?case by simp
next
  case (skip c cs)
  then show ?case by auto
next
  case (match c cs gs rest)
  from suffix_set[OF match(3)] match(5) show ?case unfolding match(4) by auto
qed

lemma suffix_count: "suffix r s \<Longrightarrow> count_list r x \<le> count_list s x"
  by (auto simp: suffix_def)

lemma re_sub_count_slash:
  "count_list (re_sub q '':id'' s) (CHR ''/'') \<le> count_list s (CHR ''/'')"
proof (induction s rule: re_sub_cases[of _ q "'':id''"])
  case Nil
  show ?case by simp
next
  case (skip c cs)
  then show ?case by simp
next
  case (match c cs gs rest)
  from suffix_count[OF match(3), of "CHR ''/''"] match(5) show ?case unfolding match(4) by simp
qed

lemma re_sub_prefix:
  "CHR '':'' \<notin> set u \<Longrightarrow> prefix u (re_sub q '':id'' s) \<Longrightarrow> prefix u s"
proof (induction u arbitrary: s)
  case Nil
  show ?case by simp
next
  case (Cons a u)
  from Cons.prems(1) have a: "a \<noteq> CHR '':''" and u: "CHR '':'' \<notin> set u" by auto
  show ?case
  proof (cases s)
    case Nil
    with Cons.prems(2) show ?thesis by simp
  next
    case (Cons c cs)
    show ?thesis
    proof (cases rule: re_sub_Cons_cases[of q "'':id''" c cs])
      case skip
      with Cons.prems(2) have "a = c" "prefix u (re_sub q '':id'' cs)"
        unfolding Cons by simp_all
      with Cons.IH[OF u] show ?thesis unfolding Cons by simp
    next
      case (match gs rest)
      with Cons.prems(2) a show ?thesis unfolding Cons by simp
    qed
  qed
qed

section \<open>Occurrences of the API prefix\<close>

lemma sublist_suffix_trans: "sublist x r \<Longrightarrow> suffix r s \<Longrightarrow> sublist x s"
proof -
  assume "sublist x r" and "suffix r s"
  then obtain ps ss u where "r = ps @ x @ ss" and "s = u @ r"
    unfolding sublist_def suffix_def by blast
  then have "s = (u @ ps) @ x @ ss" by simp
  then show ?thesis unfolding sublist_def by blast
qed

lemma re_sub_api:
  "sublist ''/api/'' (re_sub q '':id'' s) \<Longrightarrow> sublist ''/api/'' s"
proof (induction s rule: re_sub_cases[of _ q "'':id''"])
  case Nil
  then show ?case by simp
next
  case (skip c cs)
  from skip.prems have
    "prefix ''/api/'' (re_sub q '':id'' (c # cs)) \<or> sublist ''/api/'' (re_sub q '':id'' cs)"
    unfolding skip(1) sublist_Cons_right .
  then show ?case
  proof
    assume "prefix ''/api/'' (re_sub q '':id'' (c # cs))"
    then have "prefix ''/api/'' (c # cs)" by (rule re_sub_prefix[rotated]) simp
    then show ?thesis by (rule prefix_imp_sublist)
  next
    assume "sublist ''/api/'' (re_sub q '':id'' cs)"
    then have "sublist ''/api/'' cs" by (rule skip.IH)
    then show ?thesis unfolding sublist_Cons_right[of _ c cs] ..
  qed
next
  case (match c cs gs rest)
  from match.prems have "sublist ''/api/'' (re_sub q '':id'' rest)"
    unfolding match(4) by (simp add: sublist_Cons_right)
  then have "sublist ''/api/'' rest" by (rule match.IH)
  then show ?case using match(3) by (rule sublist_suffix_trans)
qed

text \<open>The replacement of the API prefix.\<close>

lemma replace_hit: "old \<noteq> [] \<Longrightarrow> replace old new (old @ t) = new @ replace old new t"
  by (cases old) (simp_all add: replace.simps)

lemma replace_miss:
  "old \<noteq> [] \<Longrightarrow> \<not> prefix old (c # cs) \<Longrightarrow>
   replace old new (c # cs) = c # replace old new cs"
  by (simp add: replace.simps)

declare replace.simps [simp del]

lemma replace_api_hit:
  "replace ''/api/'' ''/'' (''/api/'' @ t) = CHR ''/'' # replace ''/api/'' ''/'' t"
  using replace_hit[of "''/api/''" "''/''" t] by simp

lemma replace_api_miss:
  "\<not> prefix ''/api/'' (c # cs) \<Longrightarrow>
   replace ''/api/'' ''/'' (c # cs) = c # replace ''/api/'' ''/'' cs"
  by (rule replace_miss) simp_all

lemma replace_api_cases:
  obtains (Nil) "s = []"
  | (hit) t where "s = ''/api/'' @ t"
  | (miss) c cs where "s = c # cs" and "\<not> prefix ''/api/'' (c # cs)"
proof (cases s)
  case Nil
  then show ?thesis by (rule that(1))
next
  case (Cons c cs)
  show ?thesis
  proof (cases "prefix ''/api/'' s")
    case True
    then obtain t where "s = ''/api/'' @ t" unfolding prefix_def by blast
    then show ?thesis by (rule that(2))
  next
    case False
    from Cons False[unfolded Cons] show ?thesis by (rule that(3))
  qed
qed

lemma replace_api_induct [case_names Nil hit miss]:
  assumes "P []"
    and "\<And>t. P t \<Longrightarrow> P (''/api/'' @ t)"
    and "\<And>c cs. \<not> prefix ''/api/'' (c # cs) \<Longrightarrow> P cs \<Longrightarrow> P (c # cs)"
  shows "P s"
proof (induction s rule: length_induct)
  case (1 s)
  show ?case
  proof (cases s rule: replace_api_cases)
    case Nil
    show ?thesis unfolding Nil by (rule assms(1))
  next
    case (hit t)
    have "P t" using "1.IH" hit by simp
    then show ?thesis unfolding hit by (rule assms(2))
  next
    case (miss c cs)
    have "P cs" using "1.IH" miss(1) by simp
    with miss(2) show ?thesis unfolding miss(1) by (rule assms(3))
  qed
qed

text \<open>Text without a separator at its start survives the replacement where it stands.\<close>

lemma replace_api_prefix:
  "CHR ''/'' \<notin> set u \<Longrightarrow> prefix (u @ ''/'') (replace ''/api/'' ''/'' s) \<Longrightarrow> prefix (u @ ''/'') s"
proof (induction u arbitrary: s)
  case Nil
  show ?case
  proof (cases s rule: replace_api_cases)
    case Nil
    with Nil.prems(2) show ?thesis by (simp add: replace.simps)
  next
    case (hit t)
    show ?thesis unfolding hit by simp
  next
    case (miss c cs)
    from Nil.prems(2) show ?thesis unfolding miss(1) replace_api_miss[OF miss(2)] by simp
  qed
next
  case (Cons a u)
  from Cons.prems(1) have a: "a \<noteq> CHR ''/''" and u: "CHR ''/'' \<notin> set u" by auto
  show ?case
  proof (cases s rule: replace_api_cases)
    case Nil
    with Cons.prems(2) show ?thesis by (simp add: replace.simps)
  next
    case (hit t)
    from Cons.prems(2) a show ?thesis unfolding hit replace_api_hit by simp
  next
    case (miss c cs)
    from Cons.prems(2) have "a = c" "prefix (u @ ''/'') (replace ''/api/'' ''/'' cs)"
      unfolding miss(1) replace_api_miss[OF miss(2)] by simp_all
    with Cons.IH[OF u] show ?thesis unfolding miss(1) by simp
  qed
qed

lemma replace_api_overlap:
  "sublist ''/api/'' (replace ''/api/'' ''/'' s) \<Longrightarrow> sublist ''/api/api/'' s"
proof (induction s rule: replace_api_induct)
  case Nil
  then show ?case by (simp add: replace.simps)
next
  case (hit t)
  from hit.prems have
    "prefix ''api/'' (replace ''/api/'' ''/'' t) \<or> sublist ''/api/'' (replace ''/api/'' ''/'' t)"
    unfolding replace_api_hit sublist_Cons_right by simp
  then show ?case
  proof
    assume "prefix ''api/'' (replace ''/api/'' ''/'' t)"
    then have "prefix (''api'' @ ''/'') (replace ''/api/'' ''/'' t)" by simp
    then have "prefix (''api'' @ ''/'') t" by (rule replace_api_prefix[rotated]) simp
    then have "prefix ''/api/api/'' (''/api/'' @ t)" by simp
    then show ?thesis by (rule prefix_imp_sublist)
  next
    assume "sublist ''/api/'' (replace ''/api/'' ''/'' t)"
    then have "sublist ''/api/api/'' t" by (rule hit.IH)
    then show ?thesis by (rule sublist_suffix_trans) (simp add: suffix_def)
  qed
next
  case (miss c cs)
  from miss.prems have
    "prefix ''/api/'' (c # replace ''/api/'' ''/'' cs) \<or> sublist ''/api/'' (replace ''/api/'' ''/'' cs)"
    unfolding replace_api_miss[OF miss(1)] sublist_Cons_right .
  then show ?case
  proof
    assume p: "prefix ''/api/'' (c # replace ''/api/'' ''/'' cs)"
    from p[unfolded Cons_prefix_Cons] have c: "CHR ''/'' = c"
      and r: "prefix ''api/'' (replace ''/api/'' ''/'' cs)" by blast+
    have "CHR ''/'' \<notin> set ''api''" by simp
    moreover from r have "prefix (''api'' @ ''/'') (replace ''/api/'' ''/'' cs)"
      unfolding append.simps .
    ultimately have "prefix (''api'' @ ''/'') cs" by (rule replace_api_prefix)
    then have "prefix ''api/'' cs" unfolding append.simps .
    with c have "prefix ''/api/'' (c # cs)" unfolding Cons_prefix_Cons[of "CHR ''/''"] by blast
    with miss(1) show ?thesis by blast
  next
    assume "sublist ''/api/'' (replace ''/api/'' ''/'' cs)"
    then have "sublist ''/api/api/'' cs" by (rule miss.IH)
    then show ?thesis unfolding sublist_Cons_right[of _ c cs] ..
  qed
qed

lemma lstrip_sublist: "sublist x (lstrip chars s) \<Longrightarrow> sublist x s"
  unfolding lstrip_def by (erule sublist_suffix_trans) (rule suffix_dropWhile)

text \<open>
  Claim C5, as the code has it. \<^verbatim>\<open>str.replace\<close> finds the occurrences of
  \<^verbatim>\<open>/api/\<close> from left to right without overlap. For a path in which no two
  occurrences overlap, that is, one that does not contain \<^verbatim>\<open>/api/api/\<close>, the
  normalised path contains no \<^verbatim>\<open>/api/\<close> at all: every occurrence is removed and the
  later steps create none.
\<close>

theorem normalize_path_no_api:
  "\<not> sublist ''/api/api/'' p \<Longrightarrow> \<not> sublist ''/api/'' (normalize_path p)"
proof
  assume no: "\<not> sublist ''/api/api/'' p" and h: "sublist ''/api/'' (normalize_path p)"
  from h have "sublist ''/api/''
      (re_sub template_param '':id'' (lstrip ''/'' (replace ''/api/'' ''/'' p)))"
    unfolding normalize_path_def Let_def by (rule re_sub_api)
  then have "sublist ''/api/'' (lstrip ''/'' (replace ''/api/'' ''/'' p))"
    by (rule re_sub_api)
  then have "sublist ''/api/'' (replace ''/api/'' ''/'' p)"
    by (rule lstrip_sublist)
  then have "sublist ''/api/api/'' p" by (rule replace_api_overlap)
  with no show False ..
qed

theorem normalize_path_no_api_witness:
  "\<not> sublist ''/api/api/'' ''/v1/api/users/api/:id'' \<and>
   sublist ''/api/'' ''/v1/api/users/api/:id'' \<and>
   \<not> sublist ''/api/'' (normalize_path ''/v1/api/users/api/:id'')"
proof -
  have h: "\<not> sublist ''/api/api/'' ''/v1/api/users/api/:id''" by code_simp
  have i: "sublist ''/api/'' ''/v1/api/users/api/:id''" by code_simp
  from h i normalize_path_no_api[OF h] show ?thesis by blast
qed

text \<open>
  Claim C5 as stated fails where two occurrences share a separator: in
  \<^verbatim>\<open>x/api/api/y\<close> the occurrence at offset 1 is replaced, the one at offset 5 is not,
  and the normalised path \<^verbatim>\<open>x/api/y\<close> still contains \<^verbatim>\<open>/api/\<close>.
\<close>

theorem normalize_path_no_api_counterexample:
  "sublist ''/api/'' ''x/api/api/y'' \<and>
   normalize_path ''x/api/api/y'' = ''x/api/y'' \<and>
   sublist ''/api/'' (normalize_path ''x/api/api/y'')"
  by code_simp

section \<open>Normalising a normalised path\<close>

lemma replace_absent:
  "old \<noteq> [] \<Longrightarrow> \<not> sublist old s \<Longrightarrow> replace old new s = s"
proof (induction s)
  case Nil
  then show ?case by (simp add: replace.simps)
next
  case (Cons c cs)
  from Cons.prems(2) have p: "\<not> prefix old (c # cs)" and s: "\<not> sublist old cs"
    unfolding sublist_Cons_right by blast+
  from Cons.IH[OF Cons.prems(1) s] show ?case
    unfolding replace_miss[OF Cons.prems(1) p] by simp
qed

lemma lstrip_absent: "\<not> prefix ''/'' s \<Longrightarrow> lstrip ''/'' s = s"
  unfolding lstrip_def by (cases s) simp_all

lemma re_sub_absent: "\<not> has_match q s \<Longrightarrow> re_sub q r s = s"
proof (induction s)
  case Nil
  show ?case by simp
next
  case (Cons c cs)
  from Cons.prems have n: "match_items q (c # cs) = None" and h: "\<not> has_match q cs"
    unfolding has_match.simps by blast+
  from Cons.IH[OF h] n show ?case by simp
qed

lemma has_match_suffix: "suffix r s \<Longrightarrow> has_match q r \<Longrightarrow> has_match q s"
proof (induction s)
  case Nil
  then show ?case by simp
next
  case (Cons c cs)
  from Cons.prems(1) have "r = c # cs \<or> suffix r cs" unfolding suffix_Cons by blast
  then show ?case
  proof
    assume "r = c # cs"
    with Cons.prems(2) show ?thesis by simp
  next
    assume "suffix r cs"
    from Cons.IH[OF this Cons.prems(2)] show ?thesis unfolding has_match.simps ..
  qed
qed

text \<open>Where a template parameter starts: at \<^verbatim>\<open>${\<close>, followed by a character other than
  the closing brace, with a closing brace somewhere behind.\<close>

lemma if_Some_not_None: "(if c then Some x else None) \<noteq> None \<Longrightarrow> c"
  by (cases c) simp_all

lemma template_match_iff:
  "match_items template_param s \<noteq> None \<longleftrightarrow>
     (\<exists>b t. s = CHR ''$'' # CHR ''{'' # b # t \<and> b \<noteq> CHR ''}'' \<and> CHR ''}'' \<in> set t)"
proof
  assume m: "match_items template_param s \<noteq> None"
  have "prefix ''${'' s"
  proof (rule ccontr)
    assume "\<not> prefix ''${'' s"
    from template_match_other[OF this] m show False by blast
  qed
  then obtain u where "s = ''${'' @ u" unfolding prefix_def by blast
  then have s: "s = CHR ''$'' # CHR ''{'' # u" by simp
  from m[unfolded s template_match]
  have "takeWhile (\<lambda>x. x \<noteq> CHR ''}'') u \<noteq> [] \<and> dropWhile (\<lambda>x. x \<noteq> CHR ''}'') u \<noteq> []"
    by (rule if_Some_not_None)
  then have tw: "takeWhile (\<lambda>x. x \<noteq> CHR ''}'') u \<noteq> []"
    and dw: "dropWhile (\<lambda>x. x \<noteq> CHR ''}'') u \<noteq> []" by blast+
  from tw obtain b t where u: "u = b # t" by (cases u) simp_all
  have b: "b \<noteq> CHR ''}''"
  proof
    assume "b = CHR ''}''"
    then have "takeWhile (\<lambda>x. x \<noteq> CHR ''}'') u = []" unfolding u by simp
    with tw show False ..
  qed
  from dw have "\<not> (\<forall>x\<in>set u. x \<noteq> CHR ''}'')" unfolding dropWhile_eq_Nil_conv .
  then have "CHR ''}'' \<in> set u" by blast
  with b have "CHR ''}'' \<in> set t" unfolding u by auto
  with s u b show "\<exists>b t. s = CHR ''$'' # CHR ''{'' # b # t \<and> b \<noteq> CHR ''}'' \<and> CHR ''}'' \<in> set t"
    by blast
next
  assume "\<exists>b t. s = CHR ''$'' # CHR ''{'' # b # t \<and> b \<noteq> CHR ''}'' \<and> CHR ''}'' \<in> set t"
  then obtain b t where s: "s = CHR ''$'' # CHR ''{'' # b # t" and b: "b \<noteq> CHR ''}''"
    and t: "CHR ''}'' \<in> set t" by blast
  from b have tw: "takeWhile (\<lambda>x. x \<noteq> CHR ''}'') (b # t) \<noteq> []" by simp
  have dw: "dropWhile (\<lambda>x. x \<noteq> CHR ''}'') (b # t) \<noteq> []"
  proof
    assume "dropWhile (\<lambda>x. x \<noteq> CHR ''}'') (b # t) = []"
    then have "\<forall>x\<in>set (b # t). x \<noteq> CHR ''}''" unfolding dropWhile_eq_Nil_conv .
    moreover from t have "CHR ''}'' \<in> set (b # t)" by simp
    ultimately show False by blast
  qed
  have "match_items template_param s =
      Some ([], tl (dropWhile (\<lambda>x. x \<noteq> CHR ''}'') (b # t)))"
    unfolding s template_match using tw dw by (simp only: if_True simp_thms)
  then show "match_items template_param s \<noteq> None" by simp
qed

lemma template_match_hd:
  "match_items template_param (c # cs) \<noteq> None \<Longrightarrow> c = CHR ''$''"
  unfolding template_match_iff by blast

lemma template_survives:
  assumes q: "q = Lit (a # l) # its" and a: "a \<noteq> CHR ''{''" "a \<noteq> CHR ''}''"
    and m: "match_items template_param (CHR ''$'' # re_sub q '':id'' cs) \<noteq> None"
  shows "match_items template_param (CHR ''$'' # cs) \<noteq> None"
proof -
  from m obtain b t where y: "re_sub q '':id'' cs = CHR ''{'' # b # t"
    and b: "b \<noteq> CHR ''}''" and t: "CHR ''}'' \<in> set t"
    unfolding template_match_iff by blast
  from y obtain c cs' where cs: "cs = c # cs'" by (cases cs) auto
  have c: "c = CHR ''{''" and y': "re_sub q '':id'' cs' = b # t"
  proof (atomize (full), cases rule: re_sub_Cons_cases[of q "'':id''" c cs'])
    case skip
    with y show "c = CHR ''{'' \<and> re_sub q '':id'' cs' = b # t" unfolding cs by simp
  next
    case (match gs rest)
    with y show "c = CHR ''{'' \<and> re_sub q '':id'' cs' = b # t" unfolding cs by simp
  qed
  from y' obtain c2 cs2 where cs': "cs' = c2 # cs2" by (cases cs') auto
  have c2: "c2 \<noteq> CHR ''}''"
  proof (cases rule: re_sub_Cons_cases[of q "'':id''" c2 cs2])
    case skip
    with y' b show ?thesis unfolding cs' by simp
  next
    case (match gs rest)
    from match_Lit_Cons(2)[OF match(1)[unfolded q]] a(2) show ?thesis by simp
  qed
  have "CHR ''}'' \<in> set (re_sub q '':id'' cs')" unfolding y' using t by simp
  with re_sub_set[of q "'':id''" cs'] have "CHR ''}'' \<in> set cs'" by auto
  with c2 have "CHR ''}'' \<in> set cs2" unfolding cs' by auto
  with c2 show ?thesis unfolding cs cs' c template_match_iff by blast
qed

lemma template_free_re_sub:
  assumes q: "q = Lit (a # l) # its" and a: "a \<noteq> CHR ''{''" "a \<noteq> CHR ''}''"
  shows "q = template_param \<or> \<not> has_match template_param s \<Longrightarrow>
         \<not> has_match template_param (re_sub q '':id'' s)"
proof (induction s rule: re_sub_cases[of _ q "'':id''"])
  case Nil
  show ?case by (simp add: template_match_other)
next
  case (skip c cs)
  from skip.prems have "q = template_param \<or> \<not> has_match template_param cs"
    unfolding has_match.simps by blast
  then have ih: "\<not> has_match template_param (re_sub q '':id'' cs)" by (rule skip.IH)
  have "match_items template_param (c # re_sub q '':id'' cs) = None"
  proof (rule ccontr)
    assume m: "match_items template_param (c # re_sub q '':id'' cs) \<noteq> None"
    from template_match_hd[OF m] have c: "c = CHR ''$''" .
    from template_survives[OF q a m[unfolded c]]
    have orig: "match_items template_param (c # cs) \<noteq> None" unfolding c .
    from skip.prems show False
    proof
      assume qt: "q = template_param"
      from orig obtain gs rest where mm: "match_items q (c # cs) = Some (gs, rest)"
        unfolding qt by auto
      from match_Lit_Cons(1)[OF mm[unfolded q]] skip(2)[OF mm] show False by blast
    next
      assume "\<not> has_match template_param (c # cs)"
      with orig show False unfolding has_match.simps by blast
    qed
  qed
  with ih show ?case unfolding skip(1) has_match.simps by blast
next
  case (match c cs gs rest)
  from match.prems has_match_suffix[OF match(3)]
  have "q = template_param \<or> \<not> has_match template_param rest" by blast
  then have "\<not> has_match template_param (re_sub q '':id'' rest)" by (rule match.IH)
  then show ?case unfolding match(4) by (simp add: template_match_other)
qed

lemma colon_sub_slash:
  "takeWhile (\<lambda>x. x \<noteq> CHR ''/'') s = [] \<Longrightarrow>
   takeWhile (\<lambda>x. x \<noteq> CHR ''/'') (re_sub colon_param r s) = []"
proof (cases s)
  case Nil
  show ?thesis unfolding Nil by simp
next
  case (Cons a t)
  assume "takeWhile (\<lambda>x. x \<noteq> CHR ''/'') s = []"
  then have a: "a = CHR ''/''" unfolding Cons by (simp split: if_splits)
  show ?thesis unfolding Cons colon_sub_Cons a by simp
qed

lemma colon_sub_idem:
  "re_sub colon_param '':id'' (re_sub colon_param '':id'' s) = re_sub colon_param '':id'' s"
proof (induction s rule: length_induct)
  case (1 s)
  show ?case
  proof (cases s)
    case Nil
    show ?thesis unfolding Nil by simp
  next
    case (Cons a t)
    let ?P = "\<lambda>x. x \<noteq> CHR ''/''"
    show ?thesis
    proof (cases "a = CHR '':'' \<and> takeWhile ?P t \<noteq> []")
      case True
      let ?r = "dropWhile ?P t"
      let ?Z = "re_sub colon_param '':id'' ?r"
      have e: "re_sub colon_param '':id'' s = '':id'' @ ?Z"
        unfolding Cons colon_sub_Cons using True by simp
      have "length ?r < length s" unfolding Cons
        using length_dropWhile_le[of ?P t] by simp
      with "1.IH" have ih: "re_sub colon_param '':id'' ?Z = ?Z" by blast
      have "takeWhile ?P ?r = []"
      proof (cases ?r)
        case Nil
        show ?thesis unfolding Nil by simp
      next
        case (Cons y ys)
        then have "\<not> ?P y" unfolding dropWhile_eq_Cons_conv by blast
        then show ?thesis unfolding Cons by simp
      qed
      then have z: "takeWhile ?P ?Z = []" by (rule colon_sub_slash)
      then have dz: "dropWhile ?P ?Z = ?Z" by (cases ?Z) (simp_all split: if_splits)
      have "re_sub colon_param '':id'' ('':id'' @ ?Z) = '':id'' @ re_sub colon_param '':id'' ?Z"
        using dz by (simp add: colon_sub_Cons del: re_sub.simps)
      then show ?thesis unfolding e ih .
    next
      case False
      have e: "re_sub colon_param '':id'' s = a # re_sub colon_param '':id'' t"
        unfolding Cons colon_sub_Cons using False by (simp only: if_False)
      have "length t < length s" unfolding Cons by simp
      with "1.IH" have ih: "re_sub colon_param '':id'' (re_sub colon_param '':id'' t) =
          re_sub colon_param '':id'' t" by blast
      have "\<not> (a = CHR '':'' \<and> takeWhile ?P (re_sub colon_param '':id'' t) \<noteq> [])"
        using False colon_sub_slash[of t "'':id''"] by blast
      then have "re_sub colon_param '':id'' (a # re_sub colon_param '':id'' t) =
          a # re_sub colon_param '':id'' (re_sub colon_param '':id'' t)"
        unfolding colon_sub_Cons by (simp only: if_False)
      then show ?thesis unfolding e ih .
    qed
  qed
qed

lemma replace_api_count:
  "count_list (replace ''/api/'' ''/'' s) (CHR ''/'') \<le> count_list s (CHR ''/'')"
proof (induction s rule: replace_api_induct)
  case Nil
  show ?case by (simp add: replace.simps)
next
  case (hit t)
  then show ?case unfolding replace_api_hit by simp
next
  case (miss c cs)
  then show ?case unfolding replace_api_miss[OF miss(1)] by simp
qed

lemma replace_api_count_less:
  "sublist ''/api/'' s \<Longrightarrow>
   count_list (replace ''/api/'' ''/'' s) (CHR ''/'') < count_list s (CHR ''/'')"
proof (induction s rule: replace_api_induct)
  case Nil
  then show ?case by simp
next
  case (hit t)
  from replace_api_count[of t] show ?case unfolding replace_api_hit by simp
next
  case (miss c cs)
  from miss.prems miss(1) have "sublist ''/api/'' cs" unfolding sublist_Cons_right by blast
  from miss.IH[OF this] show ?case unfolding replace_api_miss[OF miss(1)] by simp
qed

lemma lstrip_count: "count_list (lstrip chars s) x \<le> count_list s x"
  unfolding lstrip_def by (rule suffix_count) (rule suffix_dropWhile)

lemma normalize_path_count:
  "count_list (normalize_path p) (CHR ''/'') \<le> count_list (replace ''/api/'' ''/'' p) (CHR ''/'')"
proof -
  have "count_list (normalize_path p) (CHR ''/'') \<le>
      count_list (re_sub template_param '':id'' (lstrip ''/'' (replace ''/api/'' ''/'' p))) (CHR ''/'')"
    unfolding normalize_path_def Let_def by (rule re_sub_count_slash)
  also have "\<dots> \<le> count_list (lstrip ''/'' (replace ''/api/'' ''/'' p)) (CHR ''/'')"
    by (rule re_sub_count_slash)
  also have "\<dots> \<le> count_list (replace ''/api/'' ''/'' p) (CHR ''/'')"
    by (rule lstrip_count)
  finally show ?thesis .
qed

lemma normalize_path_no_slash: "\<not> prefix ''/'' (normalize_path p)"
  unfolding normalize_path_def Let_def
  by (intro re_sub_no_slash lstrip_no_slash)

lemma normalize_path_template_free: "\<not> has_match template_param (normalize_path p)"
proof -
  let ?t = "lstrip ''/'' (replace ''/api/'' ''/'' p)"
  have "\<not> has_match template_param (re_sub template_param '':id'' ?t)"
    by (rule template_free_re_sub[of template_param "CHR ''$''" "''{''"])
       (simp_all add: template_param_def)
  then have "\<not> has_match template_param
      (re_sub colon_param '':id'' (re_sub template_param '':id'' ?t))"
    by (intro template_free_re_sub[of colon_param "CHR '':''" "[]"])
       (simp_all add: colon_param_def)
  then show ?thesis unfolding normalize_path_def Let_def .
qed

lemma normalize_path_fixed:
  assumes "\<not> sublist ''/api/'' (normalize_path p)"
  shows "normalize_path (normalize_path p) = normalize_path p"
proof -
  let ?q = "normalize_path p"
  have a: "replace ''/api/'' ''/'' ?q = ?q"
    by (rule replace_absent[OF _ assms]) simp
  have b: "lstrip ''/'' ?q = ?q"
    by (rule lstrip_absent[OF normalize_path_no_slash])
  have c: "re_sub template_param '':id'' ?q = ?q"
    by (rule re_sub_absent[OF normalize_path_template_free])
  have d: "re_sub colon_param '':id'' ?q = ?q"
    unfolding normalize_path_def Let_def by (rule colon_sub_idem)
  have "normalize_path ?q =
      re_sub colon_param '':id'' (re_sub template_param '':id'' (lstrip ''/'' (replace ''/api/'' ''/'' ?q)))"
    unfolding normalize_path_def[of ?q] Let_def ..
  then show ?thesis unfolding a b c d .
qed

lemma normalize_path_moves:
  assumes "sublist ''/api/'' (normalize_path p)"
  shows "normalize_path (normalize_path p) \<noteq> normalize_path p"
proof
  let ?q = "normalize_path p"
  assume e: "normalize_path ?q = ?q"
  have "count_list (normalize_path ?q) (CHR ''/'') \<le>
      count_list (replace ''/api/'' ''/'' ?q) (CHR ''/'')"
    by (rule normalize_path_count)
  also have "\<dots> < count_list ?q (CHR ''/'')"
    by (rule replace_api_count_less[OF assms])
  finally show False unfolding e by simp
qed

text \<open>
  Claim C4, as the code has it. Normalising a normalised path gives the same path exactly
  when the normalised path contains no \<^verbatim>\<open>/api/\<close>; by the theorem for claim C5 this
  holds for every path without overlapping occurrences of \<^verbatim>\<open>/api/\<close>.
\<close>

theorem normalize_path_idempotent_iff:
  "normalize_path (normalize_path p) = normalize_path p \<longleftrightarrow>
     \<not> sublist ''/api/'' (normalize_path p)"
  using normalize_path_fixed normalize_path_moves by blast

theorem normalize_path_idempotent_iff_witness:
  "\<not> sublist ''/api/'' (normalize_path ''/api/users/${userId}/posts/:postId'') \<and>
   normalize_path (normalize_path ''/api/users/${userId}/posts/:postId'') =
     normalize_path ''/api/users/${userId}/posts/:postId''"
proof -
  have h: "\<not> sublist ''/api/'' (normalize_path ''/api/users/${userId}/posts/:postId'')"
    by code_simp
  from h normalize_path_idempotent_iff[of "''/api/users/${userId}/posts/:postId''"]
  show ?thesis by blast
qed

text \<open>
  Claim C4 as stated fails: \<^verbatim>\<open>x/api/api/y\<close> normalises to \<^verbatim>\<open>x/api/y\<close>, and that
  to \<^verbatim>\<open>x/y\<close>.
\<close>

theorem normalize_path_idempotent_counterexample:
  "normalize_path ''x/api/api/y'' = ''x/api/y'' \<and>
   normalize_path (normalize_path ''x/api/api/y'') = ''x/y'' \<and>
   normalize_path (normalize_path ''x/api/api/y'') \<noteq> normalize_path ''x/api/api/y''"
  by code_simp

section \<open>Branches of the model that the script never takes\<close>

text \<open>
  Every pattern of the script starts with a literal, so a match is never empty and the
  scans never fall back to skipping a character after a match. Every pattern of the two
  extractors has two groups, and every entry of the feature table has a colon, so each
  tuple assignment of the script receives two components.
\<close>

lemma match_items_groups: "match_items p s = Some (gs, r) \<Longrightarrow> length gs = group_count p"
proof (induction p s arbitrary: gs r rule: match_items.induct)
  case (1 s)
  then show ?case by simp
next
  case (2 l its s)
  from "2.prems" have pl: "prefix l s" and m: "match_items its (drop (length l) s) = Some (gs, r)"
    by (simp_all split: if_splits)
  from "2.IH"[OF pl m] show ?case by simp
next
  case (3 ls its s)
  from "3.prems" have "first_some (\<lambda>l. if prefix l s
                      then map_option (\<lambda>(gs, r). (l # gs, r)) (match_items its (drop (length l) s))
                      else None) ls = Some (gs, r)" by simp
  from first_some_Some[OF this]
  obtain l gs' where "prefix l s" and "match_items its (drop (length l) s) = Some (gs', r)"
    and "gs = l # gs'"
    by (auto split: if_splits)
  with "3.IH"[OF this(1,2)] show ?case by simp
next
  case (4 c its s)
  from "4.prems" have "first_some (\<lambda>k. match_items its (drop k s)) (greedy_lengths c s) = Some (gs, r)"
    by simp
  from first_some_Some[OF this]
  obtain k where "match_items its (drop k s) = Some (gs, r)" by auto
  from "4.IH"[OF this] show ?case by simp
next
  case (5 c its s)
  from "5.prems" have "first_some (\<lambda>k. map_option (\<lambda>(gs, r). (take k s # gs, r)) (match_items its (drop k s)))
       (greedy_lengths c s) = Some (gs, r)" by simp
  from first_some_Some[OF this]
  obtain k gs' where "match_items its (drop k s) = Some (gs', r)" and "gs = take k s # gs'" by auto
  with "5.IH"[OF this(1)] show ?case by simp
qed

lemma match_two_groups:
  assumes "p \<in> set backend_patterns \<union> set frontend_patterns"
    and "match_items p s = Some (gs, r)"
  shows "\<exists>m path. gs = [m, path]"
proof -
  from assms(1) have "group_count p = 2"
    unfolding backend_patterns_def frontend_patterns_def by auto
  with match_items_groups[OF assms(2)] have "length gs = 2" by simp
  then show ?thesis by (auto simp: length_Suc_conv numeral_2_eq_2)
qed

lemma match_consumes:
  assumes "p \<in> set backend_patterns \<union> set frontend_patterns \<union> {template_param, colon_param}"
    and "match_items p s = Some (gs, rest)"
  shows "length rest < length s"
proof -
  from assms(1) obtain a l its where p: "p = Lit (a # l) # its"
    unfolding backend_patterns_def frontend_patterns_def template_param_def colon_param_def
    by auto
  from assms(2)[unfolded p] show ?thesis by (rule match_Lit_Cons(1))
qed

lemma v22_split:
  "list_all (\<lambda>route. length (split_once (CHR '':'') route) = 2) (concat (map snd v22_features))"
  by (simp add: v22_features_def split_once_def)

end
